theory Spec2Isabelle
  imports Complex_Main "HOL-Library.Sublist"
begin

section \<open>Data model of the orchestrator (orchestrator.py)\<close>

text \<open>
  \<^verbatim>\<open>class Status(Enum)\<close>: the five task states. \<open>status_name\<close> is the enum
  member's \<^verbatim>\<open>.name\<close>, which the export writes.
\<close>

datatype Status = PENDING | RUNNING | SUCCESS | FAILED | SKIPPED

fun status_name :: "Status \<Rightarrow> string" where
  "status_name PENDING = ''PENDING''"
| "status_name RUNNING = ''RUNNING''"
| "status_name SUCCESS = ''SUCCESS''"
| "status_name FAILED = ''FAILED''"
| "status_name SKIPPED = ''SKIPPED''"

text \<open>
  What a unit of work hands back to its caller: a Python value, of which the engine only
  asks \<^verbatim>\<open>isinstance(output, int)\<close>, or an exception, of which the engine keeps
  \<^verbatim>\<open>str(e)\<close>. A unit of work runs against the outside world (the database, the
  files, the clock), a value of an arbitrary type \<open>'w\<close> that it may change.
\<close>

datatype pyval = IntVal int | NoneVal | OtherVal

type_synonym 'w operation = "'w \<Rightarrow> (string + pyval) \<times> 'w"

text \<open>
  \<^verbatim>\<open>@dataclass TaskResult\<close>. Timestamps are \<^verbatim>\<open>datetime\<close> values, counted here in
  microseconds (the resolution of \<^verbatim>\<open>datetime\<close>); \<open>r_end\<close> and \<open>r_error\<close> default to
  \<^verbatim>\<open>None\<close>. The fields carry the prefix \<open>r_\<close>, those of a task \<open>t_\<close>.
\<close>

record task_result =
  r_name :: string
  r_status :: Status
  r_start :: int
  r_end :: "int option"
  r_records :: int
  r_error :: "string option"
  r_retries :: int

definition TaskResult :: "string \<Rightarrow> Status \<Rightarrow> int \<Rightarrow> int option \<Rightarrow> task_result" where
  "TaskResult name status start end_time =
     \<lparr>r_name = name, r_status = status, r_start = start, r_end = end_time,
      r_records = 0, r_error = None, r_retries = 0\<rparr>"

text \<open>
  \<^verbatim>\<open>duration\<close>: \<^verbatim>\<open>(self.end - self.start).total_seconds() if self.end else 0\<close>, in
  seconds, as an exact fraction.
\<close>

definition duration :: "task_result \<Rightarrow> rat" where
  "duration r = (case r_end r of Some e \<Rightarrow> of_int (e - r_start r) / 1000000 | None \<Rightarrow> 0)"

text \<open>
  \<^verbatim>\<open>@dataclass Task\<close>, with \<^verbatim>\<open>__post_init__\<close>: \<^verbatim>\<open>self.deps = self.deps or []\<close>.
\<close>

record 'w task =
  t_name :: string
  t_func :: "'w operation"
  t_deps :: "string list"
  t_critical :: bool

definition Task :: "string \<Rightarrow> 'w operation \<Rightarrow> string list option \<Rightarrow> bool \<Rightarrow> 'w task" where
  "Task name func deps critical =
     \<lparr>t_name = name, t_func = func,
      t_deps = (case deps of None \<Rightarrow> [] | Some ds \<Rightarrow> if ds = [] then [] else ds),
      t_critical = critical\<rparr>"

text \<open>
  A Python \<^verbatim>\<open>dict\<close> keeps its keys in insertion order, and the engine iterates over
  its dicts, so a dict is an association list: \<open>map_of\<close> is \<^verbatim>\<open>d.get(k)\<close>,
  \<open>map fst\<close> the iteration over the keys, and \<open>dict_set\<close> is \<^verbatim>\<open>d[k] = v\<close>, which
  replaces the value of a key that is present, in place, and appends a new key at the end.
\<close>

type_synonym 'a dict = "(string \<times> 'a) list"

fun dict_set :: "'a dict \<Rightarrow> string \<Rightarrow> 'a \<Rightarrow> 'a dict" where
  "dict_set [] k v = [(k, v)]"
| "dict_set ((k', v') # kvs) k v =
     (if k' = k then (k, v) # kvs else (k', v') # dict_set kvs k v)"

text \<open>
  \<^verbatim>\<open>class Orchestrator\<close>: \<^verbatim>\<open>__init__\<close> takes the pipeline's name; the run id is the
  start time as text, taken here as an argument.
\<close>

record 'w orchestrator =
  o_name :: string
  tasks :: "'w task dict"
  results :: "task_result dict"
  run_id :: string

definition Orchestrator :: "string \<Rightarrow> string \<Rightarrow> 'w orchestrator" where
  "Orchestrator name rid = \<lparr>o_name = name, tasks = [], results = [], run_id = rid\<rparr>"

text \<open>
  \<^verbatim>\<open>add\<close>: \<^verbatim>\<open>self.tasks[name] = Task(name, func, deps, critical); return self\<close>.
  Nothing is checked and nothing is called.
\<close>

definition add ::
  "'w orchestrator \<Rightarrow> string \<Rightarrow> 'w operation \<Rightarrow> string list option \<Rightarrow> bool \<Rightarrow> 'w orchestrator" where
  "add self name func deps critical =
     self\<lparr>tasks := dict_set (tasks self) name (Task name func deps critical)\<rparr>"

section \<open>The dependency resolver\<close>

text \<open>
  \<^verbatim>\<open>_topological_sort\<close>. The inner function \<^verbatim>\<open>visit\<close> updates the set \<^verbatim>\<open>visited\<close>
  and the list \<^verbatim>\<open>order\<close> of the enclosing call; here both are passed and returned.
  \<open>visit_each\<close> is the loop \<^verbatim>\<open>for dep in task.deps: visit(dep)\<close>, and the same loop
  over the registry's keys.
  \<^verbatim>\<open>
    def visit(name):
        if name in visited:
            return
        visited.add(name)
        task = self.tasks.get(name)
        if task:
            for dep in task.deps:
                visit(dep)
            order.append(name)
  \<close>
\<close>

function visit :: "'w task dict \<Rightarrow> string \<Rightarrow> string set \<times> string list \<Rightarrow> string set \<times> string list"
  and visit_each :: "'w task dict \<Rightarrow> string list \<Rightarrow> string set \<times> string list \<Rightarrow> string set \<times> string list"
where
  "visit tsks name (visited, order) =
     (if name \<in> visited then (visited, order)
      else (case map_of tsks name of
              None \<Rightarrow> (insert name visited, order)
            | Some task \<Rightarrow>
                (let (visited', order') = visit_each tsks (t_deps task) (insert name visited, order)
                 in (visited', order' @ [name]))))"
| "visit_each tsks [] s = s"
| "visit_each tsks (dep # deps) s = visit_each tsks deps (visit tsks dep s)"
  by pat_completeness auto

text \<open>The set of visited names only grows, wherever the traversal returns.\<close>

lemma visited_mono_dom:
  "visit_visit_each_dom (Inl (tsks, name, s)) \<Longrightarrow> fst s \<subseteq> fst (visit tsks name s)"
  "visit_visit_each_dom (Inr (tsks, deps, s)) \<Longrightarrow> fst s \<subseteq> fst (visit_each tsks deps s)"
proof (induction tsks name s and tsks deps s rule: visit_visit_each.pinduct)
  case (1 tsks name visited order)
  then show ?case
    by (auto simp: visit.psimps split: option.splits prod.splits)
next
  case (2 tsks s)
  then show ?case by (simp add: visit_each.psimps)
next
  case (3 tsks dep deps s)
  then show ?case by (auto simp: visit_each.psimps)
qed

text \<open>
  The traversal always returns: each call of \<open>visit\<close> that goes on marks a registered
  name that was not marked, and there are finitely many.
\<close>

termination visit
proof (relation "inv_image (finite_psubset <*lex*> less_than)
      (\<lambda>x. case x of Inl (tsks, name, s) \<Rightarrow> (set (map fst tsks) - fst s, 0)
                    | Inr (tsks, deps, s) \<Rightarrow> (set (map fst tsks) - fst s, Suc (length deps)))",
    goal_cases)
  case 1
  show ?case by (intro wf_inv_image wf_lex_prod wf_finite_psubset wf_less_than)
next
  case (2 tsks name visited order task)
  from 2(2) have "name \<in> set (map fst tsks)"
    by (metis map_of_eq_None_iff option.distinct(1) set_map)
  with 2(1) have "set (map fst tsks) - insert name visited \<subset> set (map fst tsks) - visited"
    by auto
  then show ?case by (simp add: finite_psubset_def)
next
  case (3 tsks dep deps s)
  then show ?case by simp
next
  case (4 tsks dep deps s)
  from visited_mono_dom(1)[OF 4]
  have "set (map fst tsks) - fst (visit tsks dep s) \<subseteq> set (map fst tsks) - fst s"
    by auto
  then show ?case by (auto simp: finite_psubset_def)
qed

definition topological_sort :: "'w task dict \<Rightarrow> string list" where
  "topological_sort tsks = snd (visit_each tsks (map fst tsks) ({}, []))"


section \<open>The execution engine and the run recorder\<close>

text \<open>
  The entries of the module-level \<^verbatim>\<open>CONFIG\<close> dict that the orchestrator and the retry
  decorator read. \<^verbatim>\<open>RETRY_DELAY\<close> is the integer 2 and \<^verbatim>\<open>RETRY_BACKOFF\<close> the float
  2.0; delays are computed here in exact rational arithmetic.
\<close>

record config =
  MAX_RETRIES :: int
  RETRY_DELAY :: rat
  RETRY_BACKOFF :: rat
  LOG_DIR :: string
  ALERT_ON_FAILURE :: bool

definition CONFIG :: config where
  "CONFIG = \<lparr>MAX_RETRIES = 3, RETRY_DELAY = 2, RETRY_BACKOFF = 2,
             LOG_DIR = ''./orch_logs'', ALERT_ON_FAILURE = True\<rparr>"

text \<open>
  One constructor for each \<^verbatim>\<open>logging\<close> call of the class \<^verbatim>\<open>Orchestrator\<close>, holding
  the values its message is formatted from.
\<close>

datatype log_line =
    Log_rule
  | Log_pipeline string string
  | Log_order "string list"
  | Log_running string
  | Log_success string rat int
  | Log_failed string string
  | Log_alert string
  | Log_skipped string
  | Log_critical_stop
  | Log_summary rat
  | Log_counts nat nat
  | Log_dash
  | Log_task Status string rat int
  | Log_exported string

text \<open>The document that \<^verbatim>\<open>json.dump\<close> writes.\<close>

datatype json = JNull | JInt int | JNum rat | JStr string | JObj "(string \<times> json) list"

text \<open>
  What the orchestrator does to the outside: the lines it logs, the files it writes
  (path and content of each \<^verbatim>\<open>open(filepath, 'w')\<close>, in order) and, as bookkeeping of
  this model, the names of the tasks whose \<^verbatim>\<open>func\<close> it has called, in call order.
\<close>

record effects =
  logged :: "log_line list"
  written :: "(string \<times> json) list"
  calls :: "string list"

definition no_effects :: effects where
  "no_effects = \<lparr>logged = [], written = [], calls = []\<rparr>"

definition log :: "log_line \<Rightarrow> effects \<Rightarrow> effects" where
  "log l fx = fx\<lparr>logged := logged fx @ [l]\<rparr>"

text \<open>
  \<^verbatim>\<open>datetime.now()\<close> reads the clock of the outside world; the reading is in
  microseconds and the world moves on.
\<close>

type_synonym 'w clock = "'w \<Rightarrow> int \<times> 'w"

text \<open>
  \<^verbatim>\<open>_can_run\<close>:
  \<^verbatim>\<open>
    for dep in task.deps:
        result = self.results.get(dep)
        if not result or result.status != Status.SUCCESS:
            return False
    return True
  \<close>
\<close>

fun deps_succeeded :: "string list \<Rightarrow> task_result dict \<Rightarrow> bool" where
  "deps_succeeded [] res = True"
| "deps_succeeded (dep # deps) res =
     (case map_of res dep of
        None \<Rightarrow> False
      | Some result \<Rightarrow> if r_status result \<noteq> SUCCESS then False else deps_succeeded deps res)"

definition can_run :: "'w task \<Rightarrow> task_result dict \<Rightarrow> bool" where
  "can_run task res = deps_succeeded (t_deps task) res"

text \<open>
  \<^verbatim>\<open>_execute_task\<close>: the one place where a task's \<^verbatim>\<open>func\<close> is called. An exception
  of the call becomes the result's \<^verbatim>\<open>FAILED\<close> status and error text.
\<close>

definition execute_task ::
  "config \<Rightarrow> 'w clock \<Rightarrow> 'w task \<Rightarrow> effects \<times> 'w \<Rightarrow> task_result \<times> effects \<times> 'w" where
  "execute_task cfg now task = (\<lambda>(fx, w).
     let (t0, w) = now w;
         result = TaskResult (t_name task) RUNNING t0 None;
         fx = log (Log_running (t_name task)) fx;
         fx = fx\<lparr>calls := calls fx @ [t_name task]\<rparr>
     in case t_func task w of
          (Inr output, w) \<Rightarrow>
            let result = result\<lparr>r_records := (case output of IntVal n \<Rightarrow> n | _ \<Rightarrow> 0)\<rparr>;
                result = result\<lparr>r_status := SUCCESS\<rparr>;
                (t1, w) = now w;
                result = result\<lparr>r_end := Some t1\<rparr>;
                fx = log (Log_success (t_name task) (duration result) (r_records result)) fx
            in (result, fx, w)
        | (Inl e, w) \<Rightarrow>
            let result = result\<lparr>r_status := FAILED\<rparr>;
                result = result\<lparr>r_error := Some e\<rparr>;
                (t1, w) = now w;
                result = result\<lparr>r_end := Some t1\<rparr>;
                fx = log (Log_failed (t_name task) e) fx;
                fx = (if ALERT_ON_FAILURE cfg then log (Log_alert (t_name task)) fx else fx)
            in (result, fx, w))"

text \<open>
  The loop of \<^verbatim>\<open>run\<close> over the resolved order. \<^verbatim>\<open>self.tasks[name]\<close> raises
  \<^verbatim>\<open>KeyError\<close> for a name that is not registered; \<^verbatim>\<open>continue\<close> is the recursive
  call, \<^verbatim>\<open>break\<close> the return.
  \<^verbatim>\<open>
    for name in order:
        task = self.tasks[name]
        if not self._can_run(task):
            logging.warning(...)
            self.results[name] = TaskResult(name, Status.SKIPPED, datetime.now(), datetime.now())
            continue
        result = self._execute_task(task)
        self.results[name] = result
        if result.status == Status.FAILED and task.critical:
            logging.error(...)
            break
  \<close>
\<close>

datatype py_error = KeyError string

fun run_loop ::
  "config \<Rightarrow> 'w clock \<Rightarrow> 'w task dict \<Rightarrow> string list \<Rightarrow> task_result dict \<times> effects \<times> 'w
     \<Rightarrow> py_error + task_result dict \<times> effects \<times> 'w" where
  "run_loop cfg now tsks [] st = Inr st"
| "run_loop cfg now tsks (name # rest) (res, fx, w) =
     (case map_of tsks name of
        None \<Rightarrow> Inl (KeyError name)
      | Some task \<Rightarrow>
          if \<not> can_run task res then
            (let fx = log (Log_skipped name) fx;
                 (t0, w) = now w;
                 (t1, w) = now w;
                 res = dict_set res name (TaskResult name SKIPPED t0 (Some t1))
             in run_loop cfg now tsks rest (res, fx, w))
          else
            (let (result, fx, w) = execute_task cfg now task (fx, w);
                 res = dict_set res name result
             in if r_status result = FAILED \<and> t_critical task
                then Inr (res, log Log_critical_stop fx, w)
                else run_loop cfg now tsks rest (res, fx, w)))"

text \<open>
  \<^verbatim>\<open>_print_summary\<close>: two counters, \<^verbatim>\<open>success\<close> and \<^verbatim>\<open>failed\<close>, and one line for
  each entry of \<^verbatim>\<open>self.results\<close>.
\<close>

definition print_summary :: "'w orchestrator \<Rightarrow> rat \<Rightarrow> effects \<Rightarrow> effects" where
  "print_summary self dur fx =
     (let success = length (filter (\<lambda>(name, r). r_status r = SUCCESS) (results self));
          failed = length (filter (\<lambda>(name, r). r_status r = FAILED) (results self));
          fx = log Log_rule fx;
          fx = log (Log_summary dur) fx;
          fx = log (Log_counts success failed) fx;
          fx = log Log_dash fx;
          fx = fold (\<lambda>(name, result). log (Log_task (r_status result) name (duration result)
                                             (r_records result))) (results self) fx
      in log Log_rule fx)"

text \<open>\<^verbatim>\<open>_export_results\<close>: the run's results as one JSON document in one file.\<close>

definition export_results :: "config \<Rightarrow> 'w orchestrator \<Rightarrow> effects \<Rightarrow> effects" where
  "export_results cfg self fx =
     (let output = JObj
            [(''pipeline'', JStr (o_name self)),
             (''run_id'', JStr (run_id self)),
             (''results'', JObj (map (\<lambda>(name, r).
                (name, JObj [(''status'', JStr (status_name (r_status r))),
                             (''duration'', JNum (duration r)),
                             (''records'', JInt (r_records r)),
                             (''error'', (case r_error r of None \<Rightarrow> JNull | Some e \<Rightarrow> JStr e))]))
                (results self)))];
          filepath = LOG_DIR cfg @ ''/results_'' @ run_id self @ ''.json'';
          fx = fx\<lparr>written := written fx @ [(filepath, output)]\<rparr>
      in log (Log_exported filepath) fx)"

text \<open>
  \<^verbatim>\<open>run\<close>: resolve the order, walk it, then print the summary and export the results,
  whether the walk came to its end or stopped at a failed critical task.
\<close>

definition run ::
  "config \<Rightarrow> 'w clock \<Rightarrow> 'w orchestrator \<Rightarrow> effects \<times> 'w
     \<Rightarrow> py_error + 'w orchestrator \<times> effects \<times> 'w" where
  "run cfg now self = (\<lambda>(fx, w).
     let fx = log Log_rule fx;
         fx = log (Log_pipeline (o_name self) (run_id self)) fx;
         fx = log Log_rule fx;
         order = topological_sort (tasks self);
         fx = log (Log_order order) fx;
         (start, w) = now w
     in case run_loop cfg now (tasks self) order (results self, fx, w) of
          Inl e \<Rightarrow> Inl e
        | Inr (res, fx, w) \<Rightarrow>
            let self = self\<lparr>results := res\<rparr>;
                (fin, w) = now w;
                dur = of_int (fin - start) / 1000000;
                fx = print_summary self dur fx;
                fx = export_results cfg self fx
            in Inr (self, fx, w))"


section \<open>The retry policy\<close>

text \<open>
  \<^verbatim>\<open>retry_with_backoff(max_retries)\<close> wraps a unit of work; the wrapper sleeps and
  logs a warning between attempts. Both are recorded beside the world of the wrapped
  unit: the delays handed to \<^verbatim>\<open>time.sleep\<close>, in order, and the warnings (attempt
  number, bound, delay, error text).
  \<^verbatim>\<open>
    for attempt in range(max_retries + 1):
        try:
            return func(*args, **kwargs)
        except Exception as e:
            if attempt >= max_retries:
                raise
            delay = CONFIG['RETRY_DELAY'] * (CONFIG['RETRY_BACKOFF'] ** attempt)
            logging.warning(f"Retry {attempt+1}/{max_retries} in {delay}s: {e}")
            time.sleep(delay)
  \<close>
  A loop that runs out of its range returns \<^verbatim>\<open>None\<close>.
\<close>

record retry_effects =
  slept :: "rat list"
  retry_logged :: "(nat \<times> int \<times> rat \<times> string) list"

definition no_retry_effects :: retry_effects where
  "no_retry_effects = \<lparr>slept = [], retry_logged = []\<rparr>"

function retry_loop ::
  "config \<Rightarrow> int \<Rightarrow> 'w operation \<Rightarrow> nat \<Rightarrow> retry_effects \<times> 'w
     \<Rightarrow> (string + pyval) \<times> retry_effects \<times> 'w" where
  "retry_loop cfg max_retries func attempt (rx, w) =
     (if int attempt < max_retries + 1 then
        (case func w of
           (Inr v, w') \<Rightarrow> (Inr v, rx, w')
         | (Inl e, w') \<Rightarrow>
             if int attempt \<ge> max_retries then (Inl e, rx, w')
             else
               (let delay = RETRY_DELAY cfg * RETRY_BACKOFF cfg ^ attempt;
                    rx = rx\<lparr>retry_logged := retry_logged rx @ [(attempt + 1, max_retries, delay, e)]\<rparr>;
                    rx = rx\<lparr>slept := slept rx @ [delay]\<rparr>
                in retry_loop cfg max_retries func (Suc attempt) (rx, w')))
      else (Inr NoneVal, rx, w))"
  by pat_completeness auto
termination
  by (relation "measure (\<lambda>(cfg, max_retries, func, attempt, s). nat (max_retries + 1 - int attempt))")
     auto

definition retry_with_backoff :: "config \<Rightarrow> int \<Rightarrow> 'w operation \<Rightarrow> (retry_effects \<times> 'w) operation" where
  "retry_with_backoff cfg max_retries func = retry_loop cfg max_retries func 0"

section \<open>Properties of the resolver: vocabulary\<close>

definition dep_rel :: "'w task dict \<Rightarrow> (string \<times> string) set" where
  "dep_rel tsks = {(n, d). \<exists>t. map_of tsks n = Some t \<and> d \<in> set (t_deps t)}"

definition pending :: "'w task dict \<Rightarrow> string set \<times> string list \<Rightarrow> string set" where
  "pending tsks s = (fst s - set (snd s)) \<inter> set (map fst tsks)"

definition sort_inv :: "'w task dict \<Rightarrow> string set \<times> string list \<Rightarrow> bool" where
  "sort_inv tsks s \<longleftrightarrow> set (snd s) \<subseteq> fst s \<inter> set (map fst tsks) \<and> distinct (snd s)"

definition deps_first :: "'w task dict \<Rightarrow> string list \<Rightarrow> bool" where
  "deps_first tsks order \<longleftrightarrow>
     (\<forall>xs n ys t. order = xs @ n # ys \<longrightarrow> map_of tsks n = Some t \<longrightarrow> set (t_deps t) \<subseteq> set xs)"

definition dep_edges :: "'w task dict \<Rightarrow> (string \<times> string) list" where
  "dep_edges tsks = concat (map (\<lambda>(n, t). map (\<lambda>d. (n, d)) (t_deps t)) tsks)"

definition deps_registered :: "'w task dict \<Rightarrow> bool" where
  "deps_registered tsks \<longleftrightarrow> (\<forall>(n, d) \<in> set (dep_edges tsks). d \<in> set (map fst tsks))"

definition precedes :: "string \<Rightarrow> string \<Rightarrow> string list \<Rightarrow> bool" where
  "precedes d n order \<longleftrightarrow> n \<in> set order \<and> d \<in> set (takeWhile (\<lambda>x. x \<noteq> n) order)"

definition ok_op :: "unit operation" where
  "ok_op = (\<lambda>w. (Inr (IntVal 1), w))"

definition small_registry :: "unit task dict" where
  "small_registry =
     [(''load'', Task ''load'' ok_op (Some [''stage'', ''schema'']) True),
      (''schema'', Task ''schema'' ok_op None True),
      (''stage'', Task ''stage'' ok_op (Some [''schema'']) True)]"

definition cyclic_registry :: "unit task dict" where
  "cyclic_registry =
     [(''A'', Task ''A'' ok_op (Some [''B'']) True),
      (''B'', Task ''B'' ok_op (Some [''A'']) True)]"

definition position :: "string \<Rightarrow> string list \<Rightarrow> nat" where
  "position n order = length (takeWhile (\<lambda>x. x \<noteq> n) order)"

definition names_match :: "'w task dict \<Rightarrow> bool" where
  "names_match tsks \<longleftrightarrow> (\<forall>(n, t) \<in> set tsks. t_name t = n)"

definition status_of :: "task_result dict \<Rightarrow> string \<Rightarrow> Status option" where
  "status_of res n = map_option r_status (map_of res n)"

definition critical_failure :: "'w task dict \<Rightarrow> task_result dict \<Rightarrow> string \<Rightarrow> bool" where
  "critical_failure tsks res n \<longleftrightarrow>
     status_of res n = Some FAILED \<and> (case map_of tsks n of Some t \<Rightarrow> t_critical t | None \<Rightarrow> False)"

fun is_summary :: "log_line \<Rightarrow> bool" where
  "is_summary (Log_summary d) = True"
| "is_summary l = False"

definition count_status :: "Status \<Rightarrow> task_result dict \<Rightarrow> nat" where
  "count_status st res = length (filter (\<lambda>(name, r). r_status r = st) res)"

definition task_lines :: "task_result dict \<Rightarrow> log_line list" where
  "task_lines res = map (\<lambda>(name, r). Log_task (r_status r) name (duration r) (r_records r)) res"

definition export_path :: "config \<Rightarrow> 'w orchestrator \<Rightarrow> string" where
  "export_path cfg self = LOG_DIR cfg @ ''/results_'' @ run_id self @ ''.json''"

definition fail_op :: "unit operation" where
  "fail_op = (\<lambda>w. (Inl ''boom'', w))"

definition frozen_clock :: "unit clock" where
  "frozen_clock = (\<lambda>w. (0, w))"

definition chain_pipeline :: "unit orchestrator" where
  "chain_pipeline =
     add (add (add (add (add (Orchestrator ''chain'' ''run1'')
       ''A'' ok_op None True)
       ''B'' fail_op None False)
       ''C'' ok_op (Some [''B'']) True)
       ''D'' ok_op (Some [''C'']) True)
       ''E'' ok_op (Some [''A'']) True"

definition always_fails :: "nat operation" where
  "always_fails = (\<lambda>attempts. (Inl ''boom'', Suc attempts))"

definition two_records :: "(retry_effects \<times> nat) operation" where
  "two_records = (\<lambda>w. (Inr (IntVal 2), w))"

definition scenario_clock :: "(retry_effects \<times> nat) clock" where
  "scenario_clock = (\<lambda>w. (0, w))"

definition scenario :: "(retry_effects \<times> nat) orchestrator" where
  "scenario =
     add (add (add (Orchestrator ''scenario'' ''run1'')
       ''A'' two_records None True)
       ''B'' (retry_with_backoff CONFIG 2 always_fails) None True)
       ''C'' two_records (Some [''A'', ''B'']) True"

fun is_counts :: "log_line \<Rightarrow> bool" where
  "is_counts (Log_counts s f) = True"
| "is_counts l = False"

definition ghost_pipeline :: "unit orchestrator" where
  "ghost_pipeline =
     add (add (Orchestrator ''ghost'' ''run1'')
       ''X'' ok_op (Some [''never_registered'']) True)
       ''Y'' ok_op None True"

definition twice_registered :: "unit orchestrator" where
  "twice_registered =
     add (add (Orchestrator ''p'' ''run1'') ''A'' ok_op None True)
       ''A'' fail_op (Some [''B'']) False"

definition deps_first_up_to_cycles :: "'w task dict \<Rightarrow> string list \<Rightarrow> bool" where
  "deps_first_up_to_cycles tsks order \<longleftrightarrow>
     (\<forall>xs n ys t d. order = xs @ n # ys \<longrightarrow> map_of tsks n = Some t \<longrightarrow> d \<in> set (t_deps t) \<longrightarrow>
        d \<in> set (map fst tsks) \<longrightarrow> d \<in> set xs \<or> (d, n) \<in> (dep_rel tsks)\<^sup>+)"

definition loop_inv :: "'w task dict \<Rightarrow> string list \<Rightarrow> string list \<Rightarrow> task_result dict \<Rightarrow> string list \<Rightarrow> bool" where
  "loop_inv tsks order done res cs \<longleftrightarrow>
     set (map fst res) = set done \<and> set cs \<subseteq> set done \<and>
     (\<forall>n r. map_of res n = Some r \<longrightarrow>
        (\<exists>t. map_of tsks n = Some t \<and>
           ((r_status r = SKIPPED \<and> n \<notin> set cs \<and>
             (\<exists>d \<in> set (t_deps t). status_of res d \<in> {Some FAILED, Some SKIPPED} \<or>
                                     \<not> precedes d n order)) \<or>
            (r_status r \<in> {SUCCESS, FAILED} \<and> n \<in> set cs \<and> deps_succeeded (t_deps t) res))))"

definition run_prologue :: "'w orchestrator \<Rightarrow> effects \<Rightarrow> effects" where
  "run_prologue self fx =
     log (Log_order (topological_sort (tasks self)))
       (log Log_rule (log (Log_pipeline (o_name self) (run_id self)) (log Log_rule fx)))"

definition summary_block :: "task_result dict \<Rightarrow> rat \<Rightarrow> log_line list" where
  "summary_block res dur =
     [Log_rule, Log_summary dur,
      Log_counts (count_status SUCCESS res) (count_status FAILED res), Log_dash] @
     task_lines res @ [Log_rule]"

definition export_document :: "'w orchestrator \<Rightarrow> json" where
  "export_document self =
     JObj [(''pipeline'', JStr (o_name self)),
           (''run_id'', JStr (run_id self)),
           (''results'', JObj (map (\<lambda>(name, r).
              (name, JObj [(''status'', JStr (status_name (r_status r))),
                           (''duration'', JNum (duration r)),
                           (''records'', JInt (r_records r)),
                           (''error'', (case r_error r of None \<Rightarrow> JNull | Some e \<Rightarrow> JStr e))]))
              (results self)))]"

definition ghost_chain :: "unit orchestrator" where
  "ghost_chain =
     add (add (add (Orchestrator ''ghost_chain'' ''run1'')
       ''X'' ok_op (Some [''never_registered'']) True)
       ''Y'' ok_op None True)
       ''Z'' ok_op (Some [''X'']) True"

definition world_after :: "'w operation \<Rightarrow> nat \<Rightarrow> 'w \<Rightarrow> 'w" where
  "world_after func k w = ((\<lambda>w. snd (func w)) ^^ k) w"

section \<open>The dependency resolver: proofs\<close>

lemma map_of_keys: "map_of tsks n = Some t \<Longrightarrow> n \<in> set (map fst tsks)"
  by (metis map_of_eq_None_iff option.distinct(1) set_map)

lemma visit_general:
  "sort_inv tsks s \<Longrightarrow>
     sort_inv tsks (visit tsks name s) \<and> insert name (fst s) \<subseteq> fst (visit tsks name s) \<and>
     pending tsks (visit tsks name s) = pending tsks s \<and> prefix (snd s) (snd (visit tsks name s))"
  "sort_inv tsks s \<Longrightarrow>
     sort_inv tsks (visit_each tsks deps s) \<and> fst s \<union> set deps \<subseteq> fst (visit_each tsks deps s) \<and>
     pending tsks (visit_each tsks deps s) = pending tsks s \<and> prefix (snd s) (snd (visit_each tsks deps s))"
proof (induction tsks name s and tsks deps s rule: visit_visit_each.induct)
  case (1 tsks name visited order)
  show ?case
  proof (cases "name \<in> visited")
    case True
    with 1(2) show ?thesis by simp
  next
    case False
    note nv = False
    show ?thesis
    proof (cases "map_of tsks name")
      case None
      then have "name \<notin> set (map fst tsks)"
        by (simp add: map_of_eq_None_iff)
      with None nv 1(2) show ?thesis
        by (auto simp: sort_inv_def pending_def)
    next
      case (Some task)
      obtain v' o' where r: "visit_each tsks (t_deps task) (insert name visited, order) = (v', o')"
        by (cases "visit_each tsks (t_deps task) (insert name visited, order)")
      have key: "name \<in> set (map fst tsks)" using Some by (rule map_of_keys)
      have inv1: "sort_inv tsks (insert name visited, order)"
        using 1(2) by (auto simp: sort_inv_def)
      from 1(1)[OF nv Some inv1] r
      have a: "sort_inv tsks (v', o')" and b: "insert name visited \<union> set (t_deps task) \<subseteq> v'"
        and c: "pending tsks (v', o') = pending tsks (insert name visited, order)"
        and d: "prefix order o'"
        by simp_all
      have "name \<notin> set order" using 1(2) nv by (auto simp: sort_inv_def)
      then have "name \<in> pending tsks (insert name visited, order)"
        using key by (simp add: pending_def)
      with c have no: "name \<notin> set o'" and nv': "name \<in> v'" by (auto simp: pending_def)
      have res: "visit tsks name (visited, order) = (v', o' @ [name])"
        using nv Some r by simp
      have "sort_inv tsks (v', o' @ [name])"
        using a no nv' key by (auto simp: sort_inv_def)
      moreover have "insert name (fst (visited, order)) \<subseteq> v'" using b by auto
      moreover have "pending tsks (v', o' @ [name]) = pending tsks (visited, order)"
        using c nv by (auto simp: pending_def)
      moreover have "prefix order (o' @ [name])" using d by (auto simp: prefix_def)
      ultimately show ?thesis unfolding res by simp
    qed
  qed
next
  case (2 tsks s)
  then show ?case by simp
next
  case (3 tsks dep deps s)
  from 3(1)[OF 3(3)] have a: "sort_inv tsks (visit tsks dep s)"
    and b: "insert dep (fst s) \<subseteq> fst (visit tsks dep s)"
    and c: "pending tsks (visit tsks dep s) = pending tsks s"
    and d: "prefix (snd s) (snd (visit tsks dep s))" by simp_all
  from 3(2)[OF a] b c d show ?case
    by (auto intro: prefix_order.trans)
qed

lemma deps_first_snoc:
  assumes "deps_first tsks order" "map_of tsks n = Some t" "set (t_deps t) \<subseteq> set order"
  shows "deps_first tsks (order @ [n])"
  unfolding deps_first_def
proof (intro allI impI)
  fix xs m ys t'
  assume eq: "order @ [n] = xs @ m # ys" and m: "map_of tsks m = Some t'"
  show "set (t_deps t') \<subseteq> set xs"
  proof (cases ys rule: rev_cases)
    case Nil
    with eq have "order = xs" "m = n" by auto
    with assms(2,3) m show ?thesis by simp
  next
    case (snoc ys' y)
    with eq have "order = xs @ m # ys'" by simp
    with assms(1) m show ?thesis unfolding deps_first_def by blast
  qed
qed

lemma visit_acyclic:
  assumes ac: "acyclic (dep_rel tsks)"
    and cl: "\<forall>n t. map_of tsks n = Some t \<longrightarrow> set (t_deps t) \<subseteq> set (map fst tsks)"
  shows
  "sort_inv tsks s \<Longrightarrow> deps_first tsks (snd s) \<Longrightarrow>
   \<forall>g \<in> pending tsks s. (g, name) \<in> (dep_rel tsks)\<^sup>+ \<Longrightarrow>
     deps_first tsks (snd (visit tsks name s)) \<and>
     (name \<in> set (map fst tsks) \<longrightarrow> name \<in> set (snd (visit tsks name s)))"
  "sort_inv tsks s \<Longrightarrow> deps_first tsks (snd s) \<Longrightarrow>
   \<forall>d \<in> set deps. \<forall>g \<in> pending tsks s. (g, d) \<in> (dep_rel tsks)\<^sup>+ \<Longrightarrow>
     deps_first tsks (snd (visit_each tsks deps s)) \<and>
     set deps \<inter> set (map fst tsks) \<subseteq> set (snd (visit_each tsks deps s))"
  using ac cl
proof (induction tsks name s and tsks deps s rule: visit_visit_each.induct)
  case (1 tsks name visited order)
  show ?case
  proof (cases "name \<in> visited")
    case True
    have "name \<in> set order" if "name \<in> set (map fst tsks)"
    proof (rule ccontr)
      assume "name \<notin> set order"
      with True that have "name \<in> pending tsks (visited, order)" by (simp add: pending_def)
      with 1(4) have "(name, name) \<in> (dep_rel tsks)\<^sup>+" by blast
      with 1(5) show False by (simp add: acyclic_def)
    qed
    with True 1(3) show ?thesis by simp
  next
    case False
    note nv = False
    show ?thesis
    proof (cases "map_of tsks name")
      case None
      then have "name \<notin> set (map fst tsks)"
        by (simp add: map_of_eq_None_iff)
      with None nv 1(3) show ?thesis by simp
    next
      case (Some task)
      obtain v' o' where r: "visit_each tsks (t_deps task) (insert name visited, order) = (v', o')"
        by (cases "visit_each tsks (t_deps task) (insert name visited, order)")
      have inv1: "sort_inv tsks (insert name visited, order)"
        using 1(2) by (auto simp: sort_inv_def)
      have df1: "deps_first tsks (snd (insert name visited, order))" using 1(3) by simp
      have pre: "\<forall>d \<in> set (t_deps task). \<forall>g \<in> pending tsks (insert name visited, order).
                   (g, d) \<in> (dep_rel tsks)\<^sup>+"
      proof (intro ballI)
        fix d g assume d: "d \<in> set (t_deps task)"
          and g: "g \<in> pending tsks (insert name visited, order)"
        from d Some have e: "(name, d) \<in> dep_rel tsks" by (auto simp: dep_rel_def)
        show "(g, d) \<in> (dep_rel tsks)\<^sup>+"
        proof (cases "g = name")
          case True
          with e show ?thesis by auto
        next
          case False
          with g have "g \<in> pending tsks (visited, order)" by (auto simp: pending_def)
          with 1(4) have "(g, name) \<in> (dep_rel tsks)\<^sup>+" by blast
          with e show ?thesis by (auto intro: trancl.trancl_into_trancl)
        qed
      qed
      from 1(1)[OF nv Some inv1 df1 pre 1(5) 1(6)] r
      have a: "deps_first tsks o'" and b: "set (t_deps task) \<inter> set (map fst tsks) \<subseteq> set o'"
        by simp_all
      from 1(6) Some have "set (t_deps task) \<subseteq> set (map fst tsks)" by blast
      with b have "set (t_deps task) \<subseteq> set o'" by auto
      with a Some have "deps_first tsks (o' @ [name])" by (rule deps_first_snoc)
      moreover have res: "visit tsks name (visited, order) = (v', o' @ [name])"
        using nv Some r by simp
      ultimately show ?thesis by simp
    qed
  qed
next
  case (2 tsks s)
  then show ?case by simp
next
  case (3 tsks dep deps s)
  let ?s1 = "visit tsks dep s"
  from visit_general(1)[OF 3(3), of dep] have a: "sort_inv tsks ?s1"
    and c: "pending tsks ?s1 = pending tsks s" by simp_all
  from 3(5) have pd: "\<forall>g \<in> pending tsks s. (g, dep) \<in> (dep_rel tsks)\<^sup>+" by simp
  from 3(1)[OF 3(3) 3(4) pd 3(6) 3(7)]
  have df: "deps_first tsks (snd ?s1)"
    and din: "dep \<in> set (map fst tsks) \<longrightarrow> dep \<in> set (snd ?s1)" by simp_all
  from 3(5) c have pr: "\<forall>d \<in> set deps. \<forall>g \<in> pending tsks ?s1. (g, d) \<in> (dep_rel tsks)\<^sup>+"
    by simp
  from 3(2)[OF a df pr 3(6) 3(7)]
  have r1: "deps_first tsks (snd (visit_each tsks deps ?s1))"
    and r2: "set deps \<inter> set (map fst tsks) \<subseteq> set (snd (visit_each tsks deps ?s1))" by simp_all
  from visit_general(2)[OF a, of deps] have "prefix (snd ?s1) (snd (visit_each tsks deps ?s1))"
    by simp
  then have "set (snd ?s1) \<subseteq> set (snd (visit_each tsks deps ?s1))"
    by (auto simp: prefix_def)
  with din r1 r2 show ?case by auto
qed

lemma dep_rel_edges: "dep_rel tsks \<subseteq> set (dep_edges tsks)"
  by (auto simp: dep_rel_def dep_edges_def dest!: map_of_SomeD)

lemma topological_sort_keys:
  "distinct (topological_sort tsks) \<and> set (topological_sort tsks) = set (map fst tsks)"
proof -
  let ?s = "visit_each tsks (map fst tsks) ({}, [])"
  have inv0: "sort_inv tsks ({}, [])" by (simp add: sort_inv_def)
  from visit_general(2)[OF inv0, of "map fst tsks"]
  have a: "sort_inv tsks ?s" and b: "set (map fst tsks) \<subseteq> fst ?s"
    and c: "pending tsks ?s = pending tsks ({}, [])" by simp_all
  from c have "pending tsks ?s = {}" by (simp add: pending_def)
  with b have "set (map fst tsks) \<subseteq> set (snd ?s)" by (auto simp: pending_def)
  with a show ?thesis by (auto simp: sort_inv_def topological_sort_def)
qed

lemma topological_sort_deps_first:
  assumes "deps_registered tsks" "acyclic (set (dep_edges tsks))"
  shows "deps_first tsks (topological_sort tsks)"
proof -
  have ac: "acyclic (dep_rel tsks)"
    using assms(2) dep_rel_edges by (rule acyclic_subset)
  have cl: "\<forall>n t. map_of tsks n = Some t \<longrightarrow> set (t_deps t) \<subseteq> set (map fst tsks)"
  proof (intro allI impI subsetI)
    fix n t d assume "map_of tsks n = Some t" "d \<in> set (t_deps t)"
    then have "(n, d) \<in> set (dep_edges tsks)"
      using dep_rel_edges[of tsks] by (auto simp: dep_rel_def)
    with assms(1) show "d \<in> set (map fst tsks)" by (auto simp: deps_registered_def)
  qed
  have inv0: "sort_inv tsks ({}, [])" by (simp add: sort_inv_def)
  have df0: "deps_first tsks (snd ({}, []))" by (simp add: deps_first_def)
  have p0: "\<forall>d \<in> set (map fst tsks). \<forall>g \<in> pending tsks ({}, []). (g, d) \<in> (dep_rel tsks)\<^sup>+"
    by (simp add: pending_def)
  from visit_acyclic(2)[OF ac cl inv0 df0 p0] show ?thesis
    by (simp add: topological_sort_def)
qed

lemma deps_first_precedes:
  assumes "deps_first tsks order" "n \<in> set order" "map_of tsks n = Some t" "d \<in> set (t_deps t)"
  shows "precedes d n order"
proof -
  from assms(2) obtain xs ys where o: "order = xs @ n # ys" and nx: "n \<notin> set xs"
    by (auto dest: split_list_first)
  from assms(1,3) o have "set (t_deps t) \<subseteq> set xs" unfolding deps_first_def by blast
  moreover have "takeWhile (\<lambda>x. x \<noteq> n) (xs @ n # ys) = xs"
    using nx by (induction xs) auto
  then have "takeWhile (\<lambda>x. x \<noteq> n) order = xs"
    using o by simp
  ultimately show ?thesis using assms(2,4) by (auto simp: precedes_def)
qed

text \<open>
  Claim C1. When every dependency named in the registry is itself registered and the
  dependency relation has no cycle, the resolved order holds exactly the registered
  tasks, each once, and every task comes strictly after each of its dependencies.
\<close>

theorem resolve_order_respects_dependencies:
  assumes "deps_registered tsks" and "acyclic (set (dep_edges tsks))"
  shows "set (topological_sort tsks) = set (map fst tsks) \<and>
         distinct (topological_sort tsks) \<and>
         (\<forall>n t d. map_of tsks n = Some t \<and> d \<in> set (t_deps t)
                   \<longrightarrow> precedes d n (topological_sort tsks))"
proof -
  have df: "deps_first tsks (topological_sort tsks)"
    using assms by (rule topological_sort_deps_first)
  have keys: "distinct (topological_sort tsks) \<and> set (topological_sort tsks) = set (map fst tsks)"
    by (rule topological_sort_keys)
  have "precedes d n (topological_sort tsks)"
    if "map_of tsks n = Some t" "d \<in> set (t_deps t)" for n t d
  proof -
    have "n \<in> set (topological_sort tsks)"
      using keys map_of_keys[OF that(1)] by simp
    with df show ?thesis using that by (rule deps_first_precedes)
  qed
  with keys show ?thesis by blast
qed

lemma small_registry_edges:
  "dep_edges small_registry = [(''load'', ''stage''), (''load'', ''schema''), (''stage'', ''schema'')]"
  by (simp add: small_registry_def dep_edges_def Task_def)

lemma small_registry_acyclic: "acyclic (set (dep_edges small_registry))"
proof (rule acyclicI_order)
  fix a b assume "(a, b) \<in> set (dep_edges small_registry)"
  then show "(if b = ''schema'' then 0 else if b = ''stage'' then 1 else (2::nat))
              < (if a = ''schema'' then 0 else if a = ''stage'' then 1 else 2)"
    unfolding small_registry_edges by auto
qed

lemma small_registry_sort: "topological_sort small_registry = [''schema'', ''stage'', ''load'']"
  by (simp add: topological_sort_def small_registry_def Task_def)

theorem resolve_order_respects_dependencies_witness:
  "deps_registered small_registry \<and> acyclic (set (dep_edges small_registry)) \<and>
   topological_sort small_registry = [''schema'', ''stage'', ''load''] \<and>
   precedes ''schema'' ''stage'' (topological_sort small_registry)"
proof -
  have r: "deps_registered small_registry"
    unfolding deps_registered_def small_registry_edges by (simp add: small_registry_def)
  have m: "map_of small_registry ''stage'' = Some (Task ''stage'' ok_op (Some [''schema'']) True)"
    by (simp add: small_registry_def)
  have d: "''schema'' \<in> set (t_deps (Task ''stage'' ok_op (Some [''schema'']) True))"
    by (simp add: Task_def)
  from resolve_order_respects_dependencies[OF r small_registry_acyclic] m d
  have "precedes ''schema'' ''stage'' (topological_sort small_registry)"
    by blast
  with r small_registry_acyclic small_registry_sort show ?thesis by simp
qed

lemma precedes_position:
  assumes "precedes d n order"
  shows "position d order < position n order"
proof -
  from assms have n: "n \<in> set order" and d: "d \<in> set (takeWhile (\<lambda>x. x \<noteq> n) order)"
    by (simp_all add: precedes_def)
  from d show ?thesis unfolding position_def
  proof (induction order)
    case Nil
    then show ?case by simp
  next
    case (Cons a order)
    then show ?case by (cases "a = n"; cases "a = d") auto
  qed
qed

lemma cyclic_registry_edges: "dep_edges cyclic_registry = [(''A'', ''B''), (''B'', ''A'')]"
  by (simp add: cyclic_registry_def dep_edges_def Task_def)

lemma cyclic_registry_cycle: "\<not> acyclic (set (dep_edges cyclic_registry))"
proof
  assume a: "acyclic (set (dep_edges cyclic_registry))"
  have "(''A'', ''B'') \<in> set (dep_edges cyclic_registry)" "(''B'', ''A'') \<in> set (dep_edges cyclic_registry)"
    by (simp_all add: cyclic_registry_edges)
  then have "(''A'', ''A'') \<in> (set (dep_edges cyclic_registry))\<^sup>+"
    by (meson trancl.r_into_trancl trancl_trans)
  with a show False by (simp add: acyclic_def)
qed

text \<open>
  Claim C2, as stated, fails: the resolver has no error to raise. For the registry in
  which A depends on B and B depends on A it returns the order B, A, in which B stands
  before its dependency A.
\<close>

theorem cyclic_registry_returns_order:
  "\<not> acyclic (set (dep_edges cyclic_registry)) \<and>
   topological_sort cyclic_registry = [''B'', ''A''] \<and>
   map_of cyclic_registry ''B'' = Some (Task ''B'' ok_op (Some [''A'']) True) \<and>
   \<not> precedes ''A'' ''B'' (topological_sort cyclic_registry)"
proof -
  have s: "topological_sort cyclic_registry = [''B'', ''A'']"
    by (simp add: topological_sort_def cyclic_registry_def Task_def)
  have m: "map_of cyclic_registry ''B'' = Some (Task ''B'' ok_op (Some [''A'']) True)"
    by (simp add: cyclic_registry_def)
  have p: "\<not> precedes ''A'' ''B'' (topological_sort cyclic_registry)"
    unfolding s by (simp add: precedes_def)
  from cyclic_registry_cycle s m p show ?thesis by simp
qed

lemma deps_first_up_to_cycles_snoc:
  assumes "deps_first_up_to_cycles tsks order" "map_of tsks n = Some t"
    and "\<And>d. d \<in> set (t_deps t) \<Longrightarrow> d \<in> set (map fst tsks) \<Longrightarrow>
           d \<in> set order \<or> (d, n) \<in> (dep_rel tsks)\<^sup>+"
  shows "deps_first_up_to_cycles tsks (order @ [n])"
  unfolding deps_first_up_to_cycles_def
proof (intro allI impI)
  fix xs m ys t' d
  assume eq: "order @ [n] = xs @ m # ys" and m: "map_of tsks m = Some t'"
    and d: "d \<in> set (t_deps t')" and k: "d \<in> set (map fst tsks)"
  show "d \<in> set xs \<or> (d, m) \<in> (dep_rel tsks)\<^sup>+"
  proof (cases ys rule: rev_cases)
    case Nil
    with eq have "order = xs" "m = n" by auto
    with assms(2) m have "t' = t" by simp
    with assms(3)[of d] d k \<open>order = xs\<close> \<open>m = n\<close> show ?thesis by simp
  next
    case (snoc ys' y)
    with eq have "order = xs @ m # ys'" by simp
    with assms(1) m d k show ?thesis unfolding deps_first_up_to_cycles_def by blast
  qed
qed

lemma visit_any_registry:
  "sort_inv tsks s \<Longrightarrow> deps_first_up_to_cycles tsks (snd s) \<Longrightarrow>
   \<forall>g \<in> pending tsks s. (g, name) \<in> (dep_rel tsks)\<^sup>+ \<Longrightarrow>
     deps_first_up_to_cycles tsks (snd (visit tsks name s))"
  "sort_inv tsks s \<Longrightarrow> deps_first_up_to_cycles tsks (snd s) \<Longrightarrow>
   \<forall>d \<in> set deps. \<forall>g \<in> pending tsks s. (g, d) \<in> (dep_rel tsks)\<^sup>+ \<Longrightarrow>
     deps_first_up_to_cycles tsks (snd (visit_each tsks deps s))"
proof (induction tsks name s and tsks deps s rule: visit_visit_each.induct)
  case (1 tsks name visited order)
  show ?case
  proof (cases "name \<in> visited")
    case True
    with 1(3) show ?thesis by simp
  next
    case False
    note nv = False
    show ?thesis
    proof (cases "map_of tsks name")
      case None
      with nv 1(3) show ?thesis by simp
    next
      case (Some task)
      obtain v' o' where r: "visit_each tsks (t_deps task) (insert name visited, order) = (v', o')"
        by (cases "visit_each tsks (t_deps task) (insert name visited, order)")
      have inv1: "sort_inv tsks (insert name visited, order)"
        using 1(2) by (auto simp: sort_inv_def)
      have df1: "deps_first_up_to_cycles tsks (snd (insert name visited, order))" using 1(3) by simp
      have pre: "\<forall>d \<in> set (t_deps task). \<forall>g \<in> pending tsks (insert name visited, order).
                   (g, d) \<in> (dep_rel tsks)\<^sup>+"
      proof (intro ballI)
        fix d g assume d: "d \<in> set (t_deps task)"
          and g: "g \<in> pending tsks (insert name visited, order)"
        from d Some have e: "(name, d) \<in> dep_rel tsks" by (auto simp: dep_rel_def)
        show "(g, d) \<in> (dep_rel tsks)\<^sup>+"
        proof (cases "g = name")
          case True
          with e show ?thesis by auto
        next
          case False
          with g have "g \<in> pending tsks (visited, order)" by (auto simp: pending_def)
          with 1(4) have "(g, name) \<in> (dep_rel tsks)\<^sup>+" by blast
          with e show ?thesis by (auto intro: trancl.trancl_into_trancl)
        qed
      qed
      from 1(1)[OF nv Some inv1 df1 pre] r
      have a: "deps_first_up_to_cycles tsks o'" by simp
      from visit_general(2)[OF inv1, of "t_deps task"] r
      have vis: "set (t_deps task) \<subseteq> v'"
        and pend: "pending tsks (v', o') = pending tsks (insert name visited, order)"
        by simp_all
      have late: "d \<in> set o' \<or> (d, name) \<in> (dep_rel tsks)\<^sup>+"
        if d: "d \<in> set (t_deps task)" and k: "d \<in> set (map fst tsks)" for d
      proof (cases "d \<in> set o'")
        case True
        then show ?thesis by simp
      next
        case False
        with d k vis have "d \<in> pending tsks (v', o')" by (auto simp: pending_def)
        with pend have g: "d \<in> pending tsks (insert name visited, order)" by simp
        from d Some have e: "(name, d) \<in> dep_rel tsks" by (auto simp: dep_rel_def)
        show ?thesis
        proof (cases "d = name")
          case True
          with e show ?thesis by auto
        next
          case False
          with g have "d \<in> pending tsks (visited, order)" by (auto simp: pending_def)
          with 1(4) show ?thesis by blast
        qed
      qed
      have "deps_first_up_to_cycles tsks (o' @ [name])"
        using a Some late by (rule deps_first_up_to_cycles_snoc)
      moreover have res: "visit tsks name (visited, order) = (v', o' @ [name])"
        using nv Some r by simp
      ultimately show ?thesis by simp
    qed
  qed
next
  case (2 tsks s)
  then show ?case by simp
next
  case (3 tsks dep deps s)
  let ?s1 = "visit tsks dep s"
  from visit_general(1)[OF 3(3), of dep] have a: "sort_inv tsks ?s1"
    and c: "pending tsks ?s1 = pending tsks s" by simp_all
  from 3(5) have pd: "\<forall>g \<in> pending tsks s. (g, dep) \<in> (dep_rel tsks)\<^sup>+" by simp
  from 3(1)[OF 3(3) 3(4) pd] have df: "deps_first_up_to_cycles tsks (snd ?s1)" .
  from 3(5) c have pr: "\<forall>d \<in> set deps. \<forall>g \<in> pending tsks ?s1. (g, d) \<in> (dep_rel tsks)\<^sup>+"
    by simp
  from 3(2)[OF a df pr] show ?case by simp
qed

lemma topological_sort_up_to_cycles: "deps_first_up_to_cycles tsks (topological_sort tsks)"
proof -
  have inv0: "sort_inv tsks ({}, [])" by (simp add: sort_inv_def)
  have df0: "deps_first_up_to_cycles tsks (snd ({}, []))" by (simp add: deps_first_up_to_cycles_def)
  have p0: "\<forall>d \<in> set (map fst tsks). \<forall>g \<in> pending tsks ({}, []). (g, d) \<in> (dep_rel tsks)\<^sup>+"
    by (simp add: pending_def)
  from visit_any_registry(2)[OF inv0 df0 p0] show ?thesis
    by (simp add: topological_sort_def)
qed

lemma registered_dependency_precedes_or_cycle:
  assumes t: "map_of tsks n = Some t" and d: "d \<in> set (t_deps t)" and k: "d \<in> set (map fst tsks)"
  shows "precedes d n (topological_sort tsks) \<or> (d, n) \<in> (dep_rel tsks)\<^sup>+"
proof -
  let ?order = "topological_sort tsks"
  have n: "n \<in> set ?order" using topological_sort_keys[of tsks] map_of_keys[OF t] by simp
  then obtain xs ys where o: "?order = xs @ n # ys" and nx: "n \<notin> set xs"
    by (auto dest: split_list_first)
  have "takeWhile (\<lambda>x. x \<noteq> n) (xs @ n # ys) = xs" using nx by (induction xs) auto
  then have tw: "takeWhile (\<lambda>x. x \<noteq> n) ?order = xs" using o by simp
  from topological_sort_up_to_cycles[of tsks] o t d k
  have "d \<in> set xs \<or> (d, n) \<in> (dep_rel tsks)\<^sup>+"
    unfolding deps_first_up_to_cycles_def by blast
  with tw n show ?thesis by (auto simp: precedes_def)
qed

lemma precedes_total:
  "n \<in> set order \<Longrightarrow> d \<in> set order \<Longrightarrow> n \<noteq> d \<Longrightarrow> precedes n d order \<or> precedes d n order"
  unfolding precedes_def by (induction order) auto

lemma trancl_without_loops:
  assumes "(a, b) \<in> r\<^sup>+" "b \<in> Domain r"
  shows "(a, b) \<in> {(n, d). (n, d) \<in> r \<and> n \<noteq> d \<and> d \<in> Domain r}\<^sup>*"
  using assms
proof (induction rule: trancl_induct)
  case (base y)
  then show ?case by (cases "a = y") auto
next
  case (step y z)
  from step(2) have "y \<in> Domain r" by auto
  with step.IH have ay: "(a, y) \<in> {(n, d). (n, d) \<in> r \<and> n \<noteq> d \<and> d \<in> Domain r}\<^sup>*" .
  show ?case
  proof (cases "y = z")
    case True
    with ay show ?thesis by simp
  next
    case False
    with step(2,4) have "(y, z) \<in> {(n, d). (n, d) \<in> r \<and> n \<noteq> d \<and> d \<in> Domain r}" by simp
    with ay show ?thesis by (rule rtrancl_into_rtrancl)
  qed
qed

lemma mutual_dependency_misorders:
  assumes xy: "x \<noteq> y" and p: "(x, y) \<in> (dep_rel tsks)\<^sup>+" and q: "(y, x) \<in> (dep_rel tsks)\<^sup>+"
    and keys: "set order = set (map fst tsks)"
  shows "\<exists>n t d. map_of tsks n = Some t \<and> d \<in> set (t_deps t) \<and> precedes n d order"
proof (rule ccontr)
  assume no: "\<not> (\<exists>n t d. map_of tsks n = Some t \<and> d \<in> set (t_deps t) \<and> precedes n d order)"
  let ?D = "dep_rel tsks"
  let ?r = "{(n, d). (n, d) \<in> ?D \<and> n \<noteq> d \<and> d \<in> Domain ?D}"
  have dom: "Domain ?D \<subseteq> set order"
    using keys by (auto simp: dep_rel_def dest: map_of_keys)
  have dec: "position d order < position n order" if "(n, d) \<in> ?r" for n d
  proof -
    from that obtain t where t: "map_of tsks n = Some t" and d: "d \<in> set (t_deps t)"
      and nd: "n \<noteq> d" and dd: "d \<in> Domain ?D" by (auto simp: dep_rel_def)
    from t have "n \<in> set order" using keys map_of_keys[OF t] by simp
    moreover from dd dom have "d \<in> set order" by auto
    ultimately have "precedes n d order \<or> precedes d n order" using nd by (rule precedes_total)
    with no t d have "precedes d n order" by blast
    then show ?thesis by (rule precedes_position)
  qed
  have ac: "acyclic ?r"
    by (rule acyclicI_order[where f = "\<lambda>v. position v order"]) (rule dec)
  from q have xd: "x \<in> Domain ?D" and yd: "y \<in> Domain ?D" using p by (auto dest: tranclD)
  from trancl_without_loops[OF p yd] xy have 1: "(x, y) \<in> ?r\<^sup>+" by (auto dest: rtranclD)
  from trancl_without_loops[OF q xd] xy have 2: "(y, x) \<in> ?r\<^sup>+" by (auto dest: rtranclD)
  from 1 2 have "(x, x) \<in> ?r\<^sup>+" by (rule trancl_trans)
  with ac show False by (simp add: acyclic_def)
qed

text \<open>
  Claim C2, amended. For every registry, with or without a cycle, the resolver raises
  nothing and returns an order that holds every registered task exactly once: nothing
  is dropped and nothing is repeated. In that order a task stands strictly after each of
  its registered dependencies, except a dependency that itself depends on the task,
  directly or through a chain. Whenever two distinct tasks depend on each other,
  directly or through a chain, some task of the order stands strictly before one of its
  own dependencies.
\<close>

theorem cyclic_order_complete_but_misordered:
  "distinct (topological_sort tsks) \<and> set (topological_sort tsks) = set (map fst tsks) \<and>
   (\<forall>n t d. map_of tsks n = Some t \<and> d \<in> set (t_deps t) \<and> d \<in> set (map fst tsks) \<longrightarrow>
      precedes d n (topological_sort tsks) \<or> (d, n) \<in> (dep_rel tsks)\<^sup>+) \<and>
   (\<forall>x y. x \<noteq> y \<and> (x, y) \<in> (dep_rel tsks)\<^sup>+ \<and> (y, x) \<in> (dep_rel tsks)\<^sup>+ \<longrightarrow>
      (\<exists>n t d. map_of tsks n = Some t \<and> d \<in> set (t_deps t) \<and>
                precedes n d (topological_sort tsks)))"
proof -
  have k: "distinct (topological_sort tsks) \<and> set (topological_sort tsks) = set (map fst tsks)"
    by (rule topological_sort_keys)
  have a: "\<forall>n t d. map_of tsks n = Some t \<and> d \<in> set (t_deps t) \<and> d \<in> set (map fst tsks) \<longrightarrow>
      precedes d n (topological_sort tsks) \<or> (d, n) \<in> (dep_rel tsks)\<^sup>+"
  proof (intro allI impI)
    fix n t d
    assume h: "map_of tsks n = Some t \<and> d \<in> set (t_deps t) \<and> d \<in> set (map fst tsks)"
    then have 1: "map_of tsks n = Some t" and 2: "d \<in> set (t_deps t)"
      and 3: "d \<in> set (map fst tsks)" by simp_all
    from registered_dependency_precedes_or_cycle[OF 1 2 3]
    show "precedes d n (topological_sort tsks) \<or> (d, n) \<in> (dep_rel tsks)\<^sup>+" .
  qed
  have b: "\<forall>x y. x \<noteq> y \<and> (x, y) \<in> (dep_rel tsks)\<^sup>+ \<and> (y, x) \<in> (dep_rel tsks)\<^sup>+ \<longrightarrow>
      (\<exists>n t d. map_of tsks n = Some t \<and> d \<in> set (t_deps t) \<and>
                precedes n d (topological_sort tsks))"
  proof (intro allI impI)
    fix x y
    assume h: "x \<noteq> y \<and> (x, y) \<in> (dep_rel tsks)\<^sup>+ \<and> (y, x) \<in> (dep_rel tsks)\<^sup>+"
    then have 1: "x \<noteq> y" and 2: "(x, y) \<in> (dep_rel tsks)\<^sup>+"
      and 3: "(y, x) \<in> (dep_rel tsks)\<^sup>+" by simp_all
    from mutual_dependency_misorders[OF 1 2 3 k[THEN conjunct2]]
    show "\<exists>n t d. map_of tsks n = Some t \<and> d \<in> set (t_deps t) \<and>
                precedes n d (topological_sort tsks)" .
  qed
  show ?thesis by (intro conjI k[THEN conjunct1] k[THEN conjunct2] a b)
qed

theorem cyclic_order_complete_but_misordered_witness:
  "''A'' \<noteq> ''B'' \<and> (''A'', ''B'') \<in> (dep_rel cyclic_registry)\<^sup>+ \<and>
   (''B'', ''A'') \<in> (dep_rel cyclic_registry)\<^sup>+ \<and>
   distinct (topological_sort cyclic_registry) \<and>
   set (topological_sort cyclic_registry) = {''A'', ''B''} \<and>
   (\<exists>n t d. map_of cyclic_registry n = Some t \<and> d \<in> set (t_deps t) \<and>
             precedes n d (topological_sort cyclic_registry))"
proof -
  have ab: "(''A'', ''B'') \<in> dep_rel cyclic_registry" and ba: "(''B'', ''A'') \<in> dep_rel cyclic_registry"
    by (simp_all add: dep_rel_def cyclic_registry_def Task_def)
  then have p: "(''A'', ''B'') \<in> (dep_rel cyclic_registry)\<^sup>+"
    and q: "(''B'', ''A'') \<in> (dep_rel cyclic_registry)\<^sup>+" by auto
  have ne: "''A'' \<noteq> ''B''" by simp
  have ks: "set (map fst cyclic_registry) = {''A'', ''B''}"
    by (simp add: cyclic_registry_def)
  note c = cyclic_order_complete_but_misordered[of cyclic_registry]
  from c have 1: "distinct (topological_sort cyclic_registry)" by (rule conjunct1)
  from c have "set (topological_sort cyclic_registry) = set (map fst cyclic_registry)"
    by (rule conjunct2[THEN conjunct1])
  then have 2: "set (topological_sort cyclic_registry) = {''A'', ''B''}" unfolding ks .
  from c have "\<forall>x y. x \<noteq> y \<and> (x, y) \<in> (dep_rel cyclic_registry)\<^sup>+ \<and>
        (y, x) \<in> (dep_rel cyclic_registry)\<^sup>+ \<longrightarrow>
      (\<exists>n t d. map_of cyclic_registry n = Some t \<and> d \<in> set (t_deps t) \<and>
                precedes n d (topological_sort cyclic_registry))"
    by (rule conjunct2[THEN conjunct2, THEN conjunct2])
  then have "''A'' \<noteq> ''B'' \<and> (''A'', ''B'') \<in> (dep_rel cyclic_registry)\<^sup>+ \<and>
        (''B'', ''A'') \<in> (dep_rel cyclic_registry)\<^sup>+ \<longrightarrow>
      (\<exists>n t d. map_of cyclic_registry n = Some t \<and> d \<in> set (t_deps t) \<and>
                precedes n d (topological_sort cyclic_registry))"
    by (elim allE)
  with ne p q have 3: "\<exists>n t d. map_of cyclic_registry n = Some t \<and> d \<in> set (t_deps t) \<and>
             precedes n d (topological_sort cyclic_registry)" by simp
  show ?thesis by (intro conjI ne p q 1 2 3)
qed

section \<open>The execution engine: proofs\<close>

lemma map_of_dict_set: "map_of (dict_set d k v) = (map_of d)(k \<mapsto> v)"
  by (induction d) (auto simp: fun_eq_iff)

lemma keys_dict_set: "set (map fst (dict_set d k v)) = insert k (set (map fst d))"
proof -
  have "set (map fst (dict_set d k v)) = dom (map_of (dict_set d k v))"
    by (simp add: dom_map_of_conv_image_fst)
  also have "\<dots> = insert k (dom (map_of d))" by (simp add: map_of_dict_set)
  also have "\<dots> = insert k (set (map fst d))" by (simp add: dom_map_of_conv_image_fst)
  finally show ?thesis .
qed

lemma deps_succeeded_iff:
  "deps_succeeded ds res \<longleftrightarrow> (\<forall>d \<in> set ds. status_of res d = Some SUCCESS)"
  by (induction ds) (auto simp: status_of_def split: option.splits)

lemma status_of_dict_set:
  "status_of (dict_set res k v) n = (if n = k then Some (r_status v) else status_of res n)"
  by (simp add: status_of_def map_of_dict_set)

lemma status_of_None: "n \<notin> set (map fst res) \<Longrightarrow> status_of res n = None"
  by (simp add: status_of_def map_of_eq_None_iff)

lemma deps_succeeded_dict_set_new:
  assumes "deps_succeeded ds res" "k \<notin> set (map fst res)"
  shows "deps_succeeded ds (dict_set res k v)"
proof -
  have "k \<notin> set ds"
  proof
    assume "k \<in> set ds"
    with assms(1) have "status_of res k = Some SUCCESS" by (simp add: deps_succeeded_iff)
    with status_of_None[OF assms(2)] show False by simp
  qed
  with assms(1) show ?thesis by (auto simp: deps_succeeded_iff status_of_dict_set)
qed

lemma deps_succeeded_dict_set_other:
  "k \<notin> set ds \<Longrightarrow> deps_succeeded ds (dict_set res k v) = deps_succeeded ds res"
  by (auto simp: deps_succeeded_iff status_of_dict_set)

lemma log_fields [simp]:
  "calls (log l fx) = calls fx" "written (log l fx) = written fx"
  "logged (log l fx) = logged fx @ [l]"
  by (simp_all add: log_def)

lemma execute_task_facts:
  assumes "execute_task cfg now task (fx, w) = (result, fx', w')"
  shows "r_status result \<in> {SUCCESS, FAILED}"
    and "calls fx' = calls fx @ [t_name task]"
    and "written fx' = written fx"
    and "filter is_summary (logged fx') = filter is_summary (logged fx)"
  using assms
  by (auto simp: execute_task_def Let_def split: prod.splits sum.splits if_splits)

lemma critical_failure_dict_set:
  "critical_failure tsks (dict_set res n r) x \<longleftrightarrow>
     (if x = n then r_status r = FAILED \<and> (case map_of tsks n of Some t \<Rightarrow> t_critical t | None \<Rightarrow> False)
      else critical_failure tsks res x)"
  by (simp add: critical_failure_def status_of_dict_set)

lemma names_matchD: "names_match tsks \<Longrightarrow> map_of tsks n = Some t \<Longrightarrow> t_name t = n"
  by (auto simp: names_match_def dest!: map_of_SomeD)

lemma fold_log:
  "fold (\<lambda>(name, result). log (g name result)) xs fx =
     fx\<lparr>logged := logged fx @ map (\<lambda>(name, result). g name result) xs\<rparr>"
  by (induction xs arbitrary: fx) (auto simp: log_def)

lemma print_summary_fields:
  "calls (print_summary self dur fx) = calls fx"
  "written (print_summary self dur fx) = written fx"
  "logged (print_summary self dur fx) =
     logged fx @ [Log_rule, Log_summary dur,
                  Log_counts (count_status SUCCESS (results self)) (count_status FAILED (results self)),
                  Log_dash] @ task_lines (results self) @ [Log_rule]"
  by (simp_all add: print_summary_def Let_def fold_log count_status_def task_lines_def)

lemma export_results_fields:
  "calls (export_results cfg self fx) = calls fx"
  "\<exists>doc. written (export_results cfg self fx) = written fx @ [(export_path cfg self, doc)]"
  "logged (export_results cfg self fx) = logged fx @ [Log_exported (export_path cfg self)]"
  by (simp_all add: export_results_def Let_def export_path_def)

lemma task_lines_no_summary: "filter is_summary (task_lines res) = []"
  by (induction res) (auto simp: task_lines_def)

lemma no_critical_failure_init: "\<not> critical_failure tsks [] x"
  by (simp add: critical_failure_def status_of_def)

lemma distinct_dict_set: "distinct (map fst d) \<Longrightarrow> distinct (map fst (dict_set d k v))"
proof (induction d)
  case Nil
  then show ?case by simp
next
  case (Cons a d)
  obtain k' v' where a: "a = (k', v')" by (cases a)
  from Cons.prems have "k' \<notin> set (map fst d)" "distinct (map fst d)" by (simp_all add: a)
  moreover have "set (map fst (dict_set d k v)) = insert k (set (map fst d))"
    by (rule keys_dict_set)
  ultimately show ?case using Cons.IH by (auto simp: a)
qed

lemma run_loop_distinct:
  "run_loop cfg now tsks todo (res, fx, w) = Inr (res', fx', w') \<Longrightarrow>
   distinct (map fst res) \<Longrightarrow> distinct (map fst res')"
proof (induction todo arbitrary: res fx w)
  case Nil
  then show ?case by simp
next
  case (Cons n rest)
  from Cons.prems(1) obtain t where t: "map_of tsks n = Some t"
    by (cases "map_of tsks n") auto
  show ?case
  proof (cases "can_run t res")
    case False
    obtain t0 w1 where n1: "now w = (t0, w1)" by (cases "now w")
    obtain t1 w2 where n2: "now w1 = (t1, w2)" by (cases "now w1")
    from Cons.prems(1) t False n1 n2
    have "run_loop cfg now tsks rest
            (dict_set res n (TaskResult n SKIPPED t0 (Some t1)), log (Log_skipped n) fx, w2)
          = Inr (res', fx', w')" by simp
    from Cons.IH[OF this distinct_dict_set[OF Cons.prems(2)]] show ?thesis .
  next
    case True
    obtain result fx1 w1 where ex: "execute_task cfg now t (fx, w) = (result, fx1, w1)"
      by (cases "execute_task cfg now t (fx, w)")
    show ?thesis
    proof (cases "r_status result = FAILED \<and> t_critical t")
      case True
      with Cons.prems(1) t \<open>can_run t res\<close> ex have "res' = dict_set res n result" by simp
      with distinct_dict_set[OF Cons.prems(2)] show ?thesis by simp
    next
      case False
      with Cons.prems(1) t \<open>can_run t res\<close> ex
      have "run_loop cfg now tsks rest (dict_set res n result, fx1, w1) = Inr (res', fx', w')"
        by auto
      from Cons.IH[OF this distinct_dict_set[OF Cons.prems(2)]] show ?thesis .
    qed
  qed
qed

lemma status_of_Some_iff: "status_of res n \<noteq> None \<longleftrightarrow> n \<in> fst ` set res"
  by (simp add: status_of_def map_of_eq_None_iff)

lemma chain_tasks:
  "tasks chain_pipeline =
     [(''A'', Task ''A'' ok_op None True), (''B'', Task ''B'' fail_op None False),
      (''C'', Task ''C'' ok_op (Some [''B'']) True), (''D'', Task ''D'' ok_op (Some [''C'']) True),
      (''E'', Task ''E'' ok_op (Some [''A'']) True)]"
  by (simp add: chain_pipeline_def add_def Orchestrator_def)

lemma chain_sort: "topological_sort (tasks chain_pipeline) = [''A'', ''B'', ''C'', ''D'', ''E'']"
  by (simp add: chain_tasks topological_sort_def Task_def)

lemma chain_run_statuses:
  "(case run CONFIG frozen_clock chain_pipeline (no_effects, ()) of
      Inr (s, fx, w) \<Rightarrow> (map (\<lambda>(n, r). (n, r_status r)) (results s), calls fx)
    | Inl e \<Rightarrow> ([], [])) =
   ([(''A'', SUCCESS), (''B'', FAILED), (''C'', SKIPPED), (''D'', SKIPPED), (''E'', SUCCESS)],
    [''A'', ''B'', ''E''])"
  unfolding run_def chain_sort
  by (simp add: chain_tasks Task_def can_run_def execute_task_def Let_def ok_op_def fail_op_def
      frozen_clock_def no_effects_def TaskResult_def CONFIG_def print_summary_fields
      export_results_fields chain_pipeline_def add_def Orchestrator_def)

lemma status_of_alt: "status_of res n = map_of (map (\<lambda>(n, r). (n, r_status r)) res) n"
  by (induction res) (auto simp: status_of_def)

lemma chain_names: "names_match (tasks chain_pipeline)"
  by (simp add: chain_tasks names_match_def Task_def)

lemma chain_edges:
  "dep_edges (tasks chain_pipeline) = [(''C'', ''B''), (''D'', ''C''), (''E'', ''A'')]"
  by (simp add: chain_tasks dep_edges_def Task_def)

lemma chain_acyclic: "acyclic (set (dep_edges (tasks chain_pipeline)))"
proof (rule acyclicI_order)
  fix a b assume "(a, b) \<in> set (dep_edges (tasks chain_pipeline))"
  then show "(if b = ''C'' then 1 else if b = ''D'' then 2 else if b = ''E'' then 1 else (0::nat))
              < (if a = ''C'' then 1 else if a = ''D'' then 2 else if a = ''E'' then 1 else 0)"
    unfolding chain_edges by auto
qed

lemma chain_registered: "deps_registered (tasks chain_pipeline)"
  unfolding deps_registered_def chain_edges by (simp add: chain_tasks)

lemma chain_reach_E:
  assumes "(''E'', d) \<in> (dep_rel (tasks chain_pipeline))\<^sup>+"
  shows "d = ''A''"
proof -
  have sub: "dep_rel (tasks chain_pipeline) \<subseteq> {(''C'', ''B''), (''D'', ''C''), (''E'', ''A'')}"
    using dep_rel_edges[of "tasks chain_pipeline"] unfolding chain_edges by simp
  from assms show ?thesis
  proof (rule converse_tranclE)
    assume "(''E'', d) \<in> dep_rel (tasks chain_pipeline)"
    with sub show ?thesis by auto
  next
    fix z assume a: "(''E'', z) \<in> dep_rel (tasks chain_pipeline)"
      and b: "(z, d) \<in> (dep_rel (tasks chain_pipeline))\<^sup>+"
    from a sub have "z = ''A''" by auto
    with b obtain y where "(''A'', y) \<in> dep_rel (tasks chain_pipeline)"
      by (auto dest: tranclD)
    with sub show ?thesis by auto
  qed
qed

lemma scenario_tasks:
  "tasks scenario =
     [(''A'', Task ''A'' two_records None True),
      (''B'', Task ''B'' (retry_with_backoff CONFIG 2 always_fails) None True),
      (''C'', Task ''C'' two_records (Some [''A'', ''B'']) True)]"
  by (simp add: scenario_def add_def Orchestrator_def)

lemma scenario_sort: "topological_sort (tasks scenario) = [''A'', ''B'', ''C'']"
  by (simp add: scenario_tasks topological_sort_def Task_def)

lemma scenario_retry:
  "retry_with_backoff CONFIG 2 always_fails (rx, n) =
     (Inl ''boom'',
      rx\<lparr>retry_logged := retry_logged rx @ [(1, 2, 2, ''boom''), (2, 2, 4, ''boom'')],
         slept := slept rx @ [2, 4]\<rparr>, n + 3)"
  by (simp add: retry_with_backoff_def always_fails_def CONFIG_def Let_def)

lemma CONFIG_fields:
  "MAX_RETRIES CONFIG = 3" "RETRY_DELAY CONFIG = 2" "RETRY_BACKOFF CONFIG = 2"
  "LOG_DIR CONFIG = ''./orch_logs''" "ALERT_ON_FAILURE CONFIG = True"
  by (simp_all add: CONFIG_def)

lemma scenario_run:
  "(case run CONFIG scenario_clock scenario (no_effects, (no_retry_effects, 0)) of
      Inr (s, fx, w) \<Rightarrow>
        (map (\<lambda>(n, r). (n, r_status r, r_records r)) (results s), calls fx,
         filter is_counts (logged fx), w)
    | Inl e \<Rightarrow> ([], [], [], (no_retry_effects, 0))) =
   ([(''A'', SUCCESS, 2), (''B'', FAILED, 0)], [''A'', ''B''], [Log_counts 1 1],
    (\<lparr>slept = [2, 4], retry_logged = [(1, 2, 2, ''boom''), (2, 2, 4, ''boom'')]\<rparr>, 3))"
  unfolding run_def scenario_sort
  by (simp add: scenario_tasks Task_def can_run_def execute_task_def Let_def two_records_def
      scenario_retry scenario_clock_def no_effects_def no_retry_effects_def TaskResult_def CONFIG_fields
      print_summary_fields export_results_fields scenario_def add_def Orchestrator_def
      task_lines_def count_status_def)

lemma takeWhile_until:
  "n \<notin> set xs \<Longrightarrow> takeWhile (\<lambda>x. x \<noteq> n) (xs @ n # ys) = xs"
  by (induction xs) auto

lemma distinct_split_unique:
  assumes "distinct (xs @ n # ys)" "xs @ n # ys = xs' @ n # ys'"
  shows "xs = xs' \<and> ys = ys'"
proof -
  from assms have "distinct (xs' @ n # ys')" by simp
  then have b: "n \<notin> set xs'" by simp
  from assms(1) have a: "n \<notin> set xs" by simp
  have "xs = takeWhile (\<lambda>x. x \<noteq> n) (xs @ n # ys)"
    using takeWhile_until[OF a] by simp
  also have "\<dots> = takeWhile (\<lambda>x. x \<noteq> n) (xs' @ n # ys')"
    using assms(2) by simp
  also have "\<dots> = xs'" using takeWhile_until[OF b] by simp
  finally have "xs = xs'" .
  with assms(2) show ?thesis by simp
qed

lemma scenario_names: "names_match (tasks scenario)"
  by (simp add: scenario_tasks names_match_def Task_def)

lemma scenario_fresh: "results scenario = []"
  by (simp add: scenario_def add_def Orchestrator_def)

lemma count_status_alt:
  "count_status st res = length (filter (\<lambda>(n, s). s = st) (map (\<lambda>(n, r). (n, r_status r)) res))"
  by (induction res) (auto simp: count_status_def)

text \<open>
  Claim C6, as stated, fails in the end-to-end scenario: B is critical, so the engine
  stops at B and C is never considered. The recorded results are A and B alone, no task
  is SKIPPED, and the summary's count line holds two numbers, successes and failures.
\<close>

theorem scenario_summary_has_no_skipped_task:
  "\<exists>s fx w. run CONFIG scenario_clock scenario (no_effects, (no_retry_effects, 0)) = Inr (s, fx, w) \<and>
      map (\<lambda>(n, r). (n, r_status r, r_records r)) (results s)
        = [(''A'', SUCCESS, 2), (''B'', FAILED, 0)] \<and>
      status_of (results s) ''C'' = None \<and>
      count_status SKIPPED (results s) = 0 \<and>
      filter is_counts (logged fx) = [Log_counts 1 1]"
proof (cases "run CONFIG scenario_clock scenario (no_effects, (no_retry_effects, 0))")
  case (Inl e)
  with scenario_run show ?thesis by simp
next
  case (Inr v)
  obtain s fx w where v: "v = (s, fx, w)" by (cases v)
  from scenario_run Inr v
  have st: "map (\<lambda>(n, r). (n, r_status r, r_records r)) (results s)
              = [(''A'', SUCCESS, 2), (''B'', FAILED, 0)]"
    and lg: "filter is_counts (logged fx) = [Log_counts 1 1]"
    by simp_all
  have "map (\<lambda>(n, r). (n, r_status r)) (results s)
          = map (\<lambda>(n, s, k). (n, s)) (map (\<lambda>(n, r). (n, r_status r, r_records r)) (results s))"
    by (simp add: case_prod_beta)
  with st have st': "map (\<lambda>(n, r). (n, r_status r)) (results s) = [(''A'', SUCCESS), (''B'', FAILED)]"
    by simp
  have c: "status_of (results s) ''C'' = None" unfolding status_of_alt st' by simp
  have k: "count_status SKIPPED (results s) = 0" unfolding count_status_alt st' by simp
  from Inr v have rn: "run CONFIG scenario_clock scenario (no_effects, (no_retry_effects, 0)) = Inr (s, fx, w)"
    by simp
  show ?thesis
    by (rule exI[of _ s], rule exI[of _ fx], rule exI[of _ w]) (intro conjI rn st c k lg)
qed

lemma ghost_tasks:
  "tasks ghost_pipeline =
     [(''X'', Task ''X'' ok_op (Some [''never_registered'']) True),
      (''Y'', Task ''Y'' ok_op None True)]"
  by (simp add: ghost_pipeline_def add_def Orchestrator_def)

lemma ghost_sort: "topological_sort (tasks ghost_pipeline) = [''X'', ''Y'']"
  by (simp add: ghost_tasks topological_sort_def Task_def)

lemma ghost_run:
  "(case run CONFIG frozen_clock ghost_pipeline (no_effects, ()) of
      Inr (s, fx, w) \<Rightarrow>
        (map (\<lambda>(n, r). (n, r_status r)) (results s), calls fx, length (written fx))
    | Inl e \<Rightarrow> ([], [], 0)) =
   ([(''X'', SKIPPED), (''Y'', SUCCESS)], [''Y''], 1)"
  unfolding run_def ghost_sort
  by (simp add: ghost_tasks Task_def can_run_def execute_task_def Let_def ok_op_def
      frozen_clock_def no_effects_def TaskResult_def CONFIG_fields
      print_summary_fields export_results_def ghost_pipeline_def add_def Orchestrator_def)

text \<open>
  Claim C8, as stated, fails: a task that names a dependency which is never registered
  is accepted by \<open>add\<close>, and the pipeline runs. The task itself is skipped, the other
  task is executed, and the export is written.
\<close>

theorem unknown_dependency_pipeline_runs:
  "\<exists>s fx w. run CONFIG frozen_clock ghost_pipeline (no_effects, ()) = Inr (s, fx, w) \<and>
      ''never_registered'' \<notin> set (map fst (tasks ghost_pipeline)) \<and>
      map (\<lambda>(n, r). (n, r_status r)) (results s) = [(''X'', SKIPPED), (''Y'', SUCCESS)] \<and>
      calls fx = [''Y''] \<and> length (written fx) = 1"
proof (cases "run CONFIG frozen_clock ghost_pipeline (no_effects, ())")
  case (Inl e)
  with ghost_run show ?thesis by simp
next
  case (Inr v)
  obtain s fx w where v: "v = (s, fx, w)" by (cases v)
  from Inr v have rn: "run CONFIG frozen_clock ghost_pipeline (no_effects, ()) = Inr (s, fx, w)"
    by simp
  from ghost_run rn
  have st: "map (\<lambda>(n, r). (n, r_status r)) (results s) = [(''X'', SKIPPED), (''Y'', SUCCESS)]"
    and c: "calls fx = [''Y'']" and wr: "length (written fx) = 1"
    by simp_all
  have g: "''never_registered'' \<notin> set (map fst (tasks ghost_pipeline))"
    by (simp add: ghost_tasks)
  show ?thesis
    by (rule exI[of _ s], rule exI[of _ fx], rule exI[of _ w]) (intro conjI rn g st c wr)
qed

lemma ghost_names: "names_match (tasks ghost_pipeline)"
  by (simp add: ghost_tasks names_match_def Task_def)

lemma keys_list_dict_set:
  "map fst (dict_set d k v) = (if k \<in> set (map fst d) then map fst d else map fst d @ [k])"
proof (induction d)
  case Nil
  then show ?case by simp
next
  case (Cons a d)
  obtain k' v' where a: "a = (k', v')" by (cases a)
  show ?case
  proof (cases "k' = k")
    case True
    then show ?thesis by (simp add: a)
  next
    case False
    with Cons.IH show ?thesis by (simp add: a)
  qed
qed

lemma names_match_dict_set:
  "names_match tsks \<Longrightarrow> t_name t = k \<Longrightarrow> names_match (dict_set tsks k t)"
proof (induction tsks)
  case Nil
  then show ?case by (simp add: names_match_def)
next
  case (Cons a tsks)
  obtain k' t' where a: "a = (k', t')" by (cases a)
  from Cons.prems(1) have h: "t_name t' = k'" and r: "names_match tsks"
    by (simp_all add: names_match_def a)
  from Cons.IH[OF r Cons.prems(2)] have "names_match (dict_set tsks k t)" .
  with h r Cons.prems(2) show ?case by (simp add: names_match_def a)
qed

lemma names_match_add: "names_match (tasks self) \<Longrightarrow> names_match (tasks (add self name func deps critical))"
  by (simp add: add_def names_match_dict_set Task_def)

lemma names_match_Orchestrator: "names_match (tasks (Orchestrator name rid))"
  by (simp add: Orchestrator_def names_match_def)

text \<open>
  Claim C7, as stated, fails: registering the name A a second time raises nothing. The
  second registration returns the orchestrator with the task stored under A replaced.
\<close>

theorem duplicate_registration_replaces_task:
  "twice_registered =
     \<lparr>o_name = ''p'', tasks = [(''A'', Task ''A'' fail_op (Some [''B'']) False)],
      results = [], run_id = ''run1''\<rparr>"
  by (simp add: twice_registered_def add_def Orchestrator_def)

text \<open>
  Claim C7, amended. Registering a task never fails. The task registered last under a
  name is the one the registry holds for it; a name that was already registered keeps its
  place in the registry and loses its earlier task, a new name goes to the end; the tasks
  under other names stay as they were. Registration changes the registry alone: the
  recorded results stay as they were, and \<open>add\<close> has no access to the outside world, so
  no operation is called.
\<close>

theorem add_replaces_or_appends:
  "map_of (tasks (add self name func deps critical)) name = Some (Task name func deps critical) \<and>
   (\<forall>m. m \<noteq> name \<longrightarrow> map_of (tasks (add self name func deps critical)) m = map_of (tasks self) m) \<and>
   map fst (tasks (add self name func deps critical)) =
     (if name \<in> set (map fst (tasks self)) then map fst (tasks self)
      else map fst (tasks self) @ [name]) \<and>
   results (add self name func deps critical) = results self \<and>
   o_name (add self name func deps critical) = o_name self \<and>
   run_id (add self name func deps critical) = run_id self"
  by (simp add: add_def map_of_dict_set keys_list_dict_set)

theorem add_replaces_or_appends_witness:
  "map_of (tasks twice_registered) ''A'' = Some (Task ''A'' fail_op (Some [''B'']) False) \<and>
   map fst (tasks twice_registered) = [''A''] \<and>
   results twice_registered = []"
proof -
  let ?first = "add (Orchestrator ''p'' ''run1'') ''A'' ok_op None True :: unit orchestrator"
  have k: "map fst (tasks ?first) = [''A'']" and r: "results ?first = []"
    by (simp_all add: add_def Orchestrator_def)
  note a = add_replaces_or_appends[of ?first "''A''" fail_op "Some [''B'']" False]
  from a have 1: "map_of (tasks twice_registered) ''A'' = Some (Task ''A'' fail_op (Some [''B'']) False)"
    unfolding twice_registered_def by (rule conjunct1)
  from a have "map fst (tasks twice_registered) =
     (if ''A'' \<in> set (map fst (tasks ?first)) then map fst (tasks ?first)
      else map fst (tasks ?first) @ [''A''])"
    unfolding twice_registered_def by blast
  then have 2: "map fst (tasks twice_registered) = [''A'']" unfolding k by simp
  from a have "results twice_registered = results ?first"
    unfolding twice_registered_def by blast
  then have 3: "results twice_registered = []" unfolding r .
  from 1 2 3 show ?thesis by simp
qed

lemma precedes_done:
  assumes "order = done @ n # rest" "distinct order"
  shows "precedes d n order \<longleftrightarrow> d \<in> set done"
proof -
  from assms have "n \<notin> set done" by auto
  from takeWhile_until[OF this, of rest] assms(1)
  have "takeWhile (\<lambda>x. x \<noteq> n) order = done" by simp
  with assms(1) show ?thesis by (simp add: precedes_def)
qed

lemma loop_inv_status:
  assumes inv: "loop_inv tsks order done res cs" and s: "status_of res d = Some st"
  shows "st \<in> {SUCCESS, FAILED, SKIPPED}"
proof -
  from s obtain r where r: "map_of res d = Some r" "r_status r = st" by (auto simp: status_of_def)
  from inv r(1) have "r_status r = SKIPPED \<or> r_status r \<in> {SUCCESS, FAILED}"
    unfolding loop_inv_def by blast
  with r(2) show ?thesis by auto
qed

lemma loop_inv_step:
  assumes inv: "loop_inv tsks order done res cs"
    and o: "order = done @ n # rest" and dist: "distinct order"
    and t: "map_of tsks n = Some t"
    and new: "(r_status r = SKIPPED \<and> \<not> deps_succeeded (t_deps t) res \<and> cs' = cs) \<or>
              (r_status r \<in> {SUCCESS, FAILED} \<and> deps_succeeded (t_deps t) res \<and> cs' = cs @ [n])"
  shows "loop_inv tsks order (done @ [n]) (dict_set res n r) cs'"
proof -
  let ?res = "dict_set res n r"
  from inv have dom: "set (map fst res) = set done" and csd: "set cs \<subseteq> set done"
    by (simp_all add: loop_inv_def)
  from o dist have nd: "n \<notin> set done" by auto
  then have nres: "n \<notin> set (map fst res)" using dom by simp
  have ncs: "n \<notin> set cs" using csd nd by auto
  have cs'sub: "set cs' \<subseteq> set (done @ [n])" using new csd by auto
  have cs'old: "\<And>m. m \<noteq> n \<Longrightarrow> m \<in> set cs' \<longleftrightarrow> m \<in> set cs" using new by auto
  have k: "set (map fst ?res) = set (done @ [n])"
    unfolding keys_dict_set dom by simp
  have keep: "status_of ?res d \<in> {Some FAILED, Some SKIPPED}"
    if "status_of res d \<in> {Some FAILED, Some SKIPPED}" for d
  proof -
    from that have "status_of res d \<noteq> None" by auto
    then have "d \<in> set (map fst res)" by (simp add: status_of_def map_of_eq_None_iff)
    with nres have "d \<noteq> n" by auto
    with that show ?thesis by (simp add: status_of_dict_set)
  qed
  have main: "\<exists>t'. map_of tsks m = Some t' \<and>
           ((r_status r' = SKIPPED \<and> m \<notin> set cs' \<and>
             (\<exists>d \<in> set (t_deps t'). status_of ?res d \<in> {Some FAILED, Some SKIPPED} \<or>
                                      \<not> precedes d m order)) \<or>
            (r_status r' \<in> {SUCCESS, FAILED} \<and> m \<in> set cs' \<and> deps_succeeded (t_deps t') ?res))"
    if mr: "map_of ?res m = Some r'" for m r'
  proof (cases "m = n")
    case True
    with mr have r': "r' = r" by (simp add: map_of_dict_set)
    show ?thesis
    proof (cases "r_status r = SKIPPED")
      case True
      with new have nds: "\<not> deps_succeeded (t_deps t) res" and c: "cs' = cs" by auto
      from nds obtain d where d: "d \<in> set (t_deps t)" and ns: "status_of res d \<noteq> Some SUCCESS"
        by (auto simp: deps_succeeded_iff)
      have "status_of ?res d \<in> {Some FAILED, Some SKIPPED} \<or> \<not> precedes d n order"
      proof (cases "d \<in> set done")
        case False
        then show ?thesis using precedes_done[OF o dist, of d] by simp
      next
        case True
        with dom have "status_of res d \<noteq> None" by (simp add: status_of_def map_of_eq_None_iff)
        then obtain st where st: "status_of res d = Some st" by auto
        from loop_inv_status[OF inv st] ns st have "status_of res d \<in> {Some FAILED, Some SKIPPED}"
          by auto
        from keep[OF this] show ?thesis by simp
      qed
      with d have "\<exists>d \<in> set (t_deps t). status_of ?res d \<in> {Some FAILED, Some SKIPPED} \<or>
                                      \<not> precedes d n order" by blast
      with True c ncs t \<open>m = n\<close> r' show ?thesis by simp
    next
      case False
      with new have ex: "r_status r \<in> {SUCCESS, FAILED}" and ds: "deps_succeeded (t_deps t) res"
        and c: "cs' = cs @ [n]" by auto
      from deps_succeeded_dict_set_new[OF ds nres] have "deps_succeeded (t_deps t) ?res" .
      with ex c t \<open>m = n\<close> r' show ?thesis by simp
    qed
  next
    case False
    with mr have old: "map_of res m = Some r'" by (simp add: map_of_dict_set)
    with inv obtain t' where t': "map_of tsks m = Some t'"
      and a: "(r_status r' = SKIPPED \<and> m \<notin> set cs \<and>
             (\<exists>d \<in> set (t_deps t'). status_of res d \<in> {Some FAILED, Some SKIPPED} \<or>
                                      \<not> precedes d m order)) \<or>
            (r_status r' \<in> {SUCCESS, FAILED} \<and> m \<in> set cs \<and> deps_succeeded (t_deps t') res)"
      unfolding loop_inv_def by blast
    from a show ?thesis
    proof
      assume s: "r_status r' = SKIPPED \<and> m \<notin> set cs \<and>
             (\<exists>d \<in> set (t_deps t'). status_of res d \<in> {Some FAILED, Some SKIPPED} \<or>
                                      \<not> precedes d m order)"
      then obtain d where d: "d \<in> set (t_deps t')"
        and dd: "status_of res d \<in> {Some FAILED, Some SKIPPED} \<or> \<not> precedes d m order" by blast
      from dd keep have "status_of ?res d \<in> {Some FAILED, Some SKIPPED} \<or> \<not> precedes d m order"
        by blast
      with d have "\<exists>d \<in> set (t_deps t'). status_of ?res d \<in> {Some FAILED, Some SKIPPED} \<or>
                                      \<not> precedes d m order" by blast
      with s cs'old[OF False] t' show ?thesis by simp
    next
      assume e: "r_status r' \<in> {SUCCESS, FAILED} \<and> m \<in> set cs \<and> deps_succeeded (t_deps t') res"
      then have "deps_succeeded (t_deps t') ?res"
        using deps_succeeded_dict_set_new[OF _ nres] by blast
      with e cs'old[OF False] t' show ?thesis by simp
    qed
  qed
  show ?thesis
    unfolding loop_inv_def using k cs'sub main by blast
qed

lemma run_loop_inv:
  assumes nm: "names_match tsks"
  shows "order = done @ todo \<Longrightarrow> distinct order \<Longrightarrow> set order \<subseteq> set (map fst tsks) \<Longrightarrow>
    loop_inv tsks order done res (calls fx) \<Longrightarrow> \<forall>x. \<not> critical_failure tsks res x \<Longrightarrow>
    \<exists>res' fx' w' pre post.
       run_loop cfg now tsks todo (res, fx, w) = Inr (res', fx', w') \<and> todo = pre @ post \<and>
       loop_inv tsks order (done @ pre) res' (calls fx') \<and>
       (\<forall>x. critical_failure tsks res' x \<longrightarrow> pre \<noteq> [] \<and> x = last pre) \<and>
       (post = [] \<or> (pre \<noteq> [] \<and> critical_failure tsks res' (last pre))) \<and>
       written fx' = written fx \<and>
       filter is_summary (logged fx') = filter is_summary (logged fx)"
proof (induction todo arbitrary: "done" res fx w)
  case Nil
  then show ?case by simp
next
  case (Cons n rest)
  from Cons.prems(1,3) have "n \<in> set (map fst tsks)" by auto
  then obtain t where t: "map_of tsks n = Some t"
    by (metis map_of_eq_None_iff not_Some_eq set_map)
  have tn: "t_name t = n" using nm t by (rule names_matchD)
  have o': "order = (done @ [n]) @ rest" using Cons.prems(1) by simp
  show ?case
  proof (cases "can_run t res")
    case False
    obtain t0 w1 where n1: "now w = (t0, w1)" by (cases "now w")
    obtain t1 w2 where n2: "now w1 = (t1, w2)" by (cases "now w1")
    let ?r = "TaskResult n SKIPPED t0 (Some t1)"
    let ?res = "dict_set res n ?r"
    let ?fx = "log (Log_skipped n) fx"
    have step: "run_loop cfg now tsks (n # rest) (res, fx, w) = run_loop cfg now tsks rest (?res, ?fx, w2)"
      using t False n1 n2 by simp
    have sk: "r_status ?r = SKIPPED" by (simp add: TaskResult_def)
    have inv': "loop_inv tsks order (done @ [n]) ?res (calls ?fx)"
      using loop_inv_step[OF Cons.prems(4) Cons.prems(1) Cons.prems(2) t, of ?r "calls fx"]
        False sk by (simp add: can_run_def)
    have nc: "\<forall>x. \<not> critical_failure tsks ?res x"
      using Cons.prems(5) sk by (simp add: critical_failure_dict_set)
    from Cons.IH[OF o' Cons.prems(2) Cons.prems(3) inv' nc, of w2]
    obtain res' fx' w' pre post where
      r: "run_loop cfg now tsks rest (?res, ?fx, w2) = Inr (res', fx', w')"
      and sp: "rest = pre @ post"
      and i: "loop_inv tsks order ((done @ [n]) @ pre) res' (calls fx')"
      and c: "\<forall>x. critical_failure tsks res' x \<longrightarrow> pre \<noteq> [] \<and> x = last pre"
      and h: "post = [] \<or> (pre \<noteq> [] \<and> critical_failure tsks res' (last pre))"
      and wr: "written fx' = written ?fx"
      and sm: "filter is_summary (logged fx') = filter is_summary (logged ?fx)"
      by blast
    have "run_loop cfg now tsks (n # rest) (res, fx, w) = Inr (res', fx', w') \<and>
          n # rest = (n # pre) @ post \<and>
          loop_inv tsks order (done @ (n # pre)) res' (calls fx') \<and>
          (\<forall>x. critical_failure tsks res' x \<longrightarrow> n # pre \<noteq> [] \<and> x = last (n # pre)) \<and>
          (post = [] \<or> (n # pre \<noteq> [] \<and> critical_failure tsks res' (last (n # pre)))) \<and>
          written fx' = written fx \<and>
          filter is_summary (logged fx') = filter is_summary (logged fx)"
      using step r sp i c h wr sm by auto
    then show ?thesis by blast
  next
    case True
    obtain result fx1 w1 where ex: "execute_task cfg now t (fx, w) = (result, fx1, w1)"
      by (cases "execute_task cfg now t (fx, w)")
    note f = execute_task_facts[OF ex]
    let ?res = "dict_set res n result"
    have inv': "loop_inv tsks order (done @ [n]) ?res (calls fx1)"
      using loop_inv_step[OF Cons.prems(4) Cons.prems(1) Cons.prems(2) t, of result "calls fx1"]
        True f(1,2) tn by (simp add: can_run_def)
    show ?thesis
    proof (cases "r_status result = FAILED \<and> t_critical t")
      case True
      have step: "run_loop cfg now tsks (n # rest) (res, fx, w) = Inr (?res, log Log_critical_stop fx1, w1)"
        using t \<open>can_run t res\<close> ex True by simp
      have c: "\<forall>x. critical_failure tsks ?res x \<longrightarrow> [n] \<noteq> [] \<and> x = last [n]"
        using Cons.prems(5) by (simp add: critical_failure_dict_set)
      have cfn: "critical_failure tsks ?res n"
        using True t by (simp add: critical_failure_dict_set)
      have "run_loop cfg now tsks (n # rest) (res, fx, w) = Inr (?res, log Log_critical_stop fx1, w1) \<and>
          n # rest = [n] @ rest \<and>
          loop_inv tsks order (done @ [n]) ?res (calls (log Log_critical_stop fx1)) \<and>
          (\<forall>x. critical_failure tsks ?res x \<longrightarrow> [n] \<noteq> [] \<and> x = last [n]) \<and>
          (rest = [] \<or> ([n] \<noteq> [] \<and> critical_failure tsks ?res (last [n]))) \<and>
          written (log Log_critical_stop fx1) = written fx \<and>
          filter is_summary (logged (log Log_critical_stop fx1)) = filter is_summary (logged fx)"
        using step inv' c cfn f(3,4) by simp
      then show ?thesis by blast
    next
      case False
      have step: "run_loop cfg now tsks (n # rest) (res, fx, w) = run_loop cfg now tsks rest (?res, fx1, w1)"
        using t \<open>can_run t res\<close> ex False by auto
      have nc: "\<forall>x. \<not> critical_failure tsks ?res x"
        using Cons.prems(5) False t by (simp add: critical_failure_dict_set)
      from Cons.IH[OF o' Cons.prems(2) Cons.prems(3) inv' nc, of w1]
      obtain res' fx' w' pre post where
        r: "run_loop cfg now tsks rest (?res, fx1, w1) = Inr (res', fx', w')"
        and sp: "rest = pre @ post"
        and i: "loop_inv tsks order ((done @ [n]) @ pre) res' (calls fx')"
        and c: "\<forall>x. critical_failure tsks res' x \<longrightarrow> pre \<noteq> [] \<and> x = last pre"
        and h: "post = [] \<or> (pre \<noteq> [] \<and> critical_failure tsks res' (last pre))"
        and wr: "written fx' = written fx1"
        and sm: "filter is_summary (logged fx') = filter is_summary (logged fx1)"
        by blast
      have "run_loop cfg now tsks (n # rest) (res, fx, w) = Inr (res', fx', w') \<and>
          n # rest = (n # pre) @ post \<and>
          loop_inv tsks order (done @ (n # pre)) res' (calls fx') \<and>
          (\<forall>x. critical_failure tsks res' x \<longrightarrow> n # pre \<noteq> [] \<and> x = last (n # pre)) \<and>
          (post = [] \<or> (n # pre \<noteq> [] \<and> critical_failure tsks res' (last (n # pre)))) \<and>
          written fx' = written fx \<and>
          filter is_summary (logged fx') = filter is_summary (logged fx)"
        using step r sp i c h wr sm f(3,4) by auto
      then show ?thesis by blast
    qed
  qed
qed

lemma loop_inv_init: "loop_inv tsks order [] [] []"
  by (simp add: loop_inv_def)

lemma run_outcome:
  assumes nm: "names_match (tasks self)" and fresh: "results self = []" and nc: "calls fx = []"
  shows "\<exists>res fxl wl pre post.
     run_loop cfg now (tasks self) (topological_sort (tasks self))
       (results self, run_prologue self fx, snd (now w)) = Inr (res, fxl, wl) \<and>
     run cfg now self (fx, w) =
       Inr (self\<lparr>results := res\<rparr>,
            export_results cfg (self\<lparr>results := res\<rparr>)
              (print_summary (self\<lparr>results := res\<rparr>)
                 (of_int (fst (now wl) - fst (now w)) / 1000000) fxl),
            snd (now wl)) \<and>
     topological_sort (tasks self) = pre @ post \<and>
     loop_inv (tasks self) (topological_sort (tasks self)) pre res (calls fxl) \<and>
     (\<forall>x. critical_failure (tasks self) res x \<longrightarrow> pre \<noteq> [] \<and> x = last pre) \<and>
     (post = [] \<or> (pre \<noteq> [] \<and> critical_failure (tasks self) res (last pre))) \<and>
     written fxl = written fx \<and>
     filter is_summary (logged fxl) = filter is_summary (logged fx) \<and>
     distinct (map fst res)"
proof -
  let ?order = "topological_sort (tasks self)"
  let ?fx0 = "run_prologue self fx"
  obtain start w0 where n0: "now w = (start, w0)" by (cases "now w")
  have d: "distinct ?order" and k: "set ?order \<subseteq> set (map fst (tasks self))"
    using topological_sort_keys[of "tasks self"] by simp_all
  have i0: "loop_inv (tasks self) ?order [] [] (calls ?fx0)"
    using nc by (simp add: loop_inv_init run_prologue_def)
  have c0: "\<forall>x. \<not> critical_failure (tasks self) [] x"
    by (simp add: no_critical_failure_init)
  have o0: "?order = [] @ ?order" by simp
  from run_loop_inv[OF nm o0 d k i0 c0, of cfg now w0]
  obtain res fxl wl pre post where
    r: "run_loop cfg now (tasks self) ?order ([], ?fx0, w0) = Inr (res, fxl, wl)"
    and sp: "?order = pre @ post"
    and i: "loop_inv (tasks self) ?order ([] @ pre) res (calls fxl)"
    and c: "\<forall>x. critical_failure (tasks self) res x \<longrightarrow> pre \<noteq> [] \<and> x = last pre"
    and h: "post = [] \<or> (pre \<noteq> [] \<and> critical_failure (tasks self) res (last pre))"
    and wr: "written fxl = written ?fx0"
    and sm: "filter is_summary (logged fxl) = filter is_summary (logged ?fx0)"
    by (elim exE conjE) (rule that)
  have dr: "distinct (map fst res)" using run_loop_distinct[OF r] by simp
  obtain fin w1 where n1: "now wl = (fin, w1)" by (cases "now wl")
  have 1: "run_loop cfg now (tasks self) ?order (results self, ?fx0, snd (now w)) = Inr (res, fxl, wl)"
    using r n0 fresh by simp
  have 2: "run cfg now self (fx, w) =
       Inr (self\<lparr>results := res\<rparr>,
            export_results cfg (self\<lparr>results := res\<rparr>)
              (print_summary (self\<lparr>results := res\<rparr>)
                 (of_int (fst (now wl) - fst (now w)) / 1000000) fxl),
            snd (now wl))"
    using r n0 n1 fresh by (simp add: run_def Let_def run_prologue_def)
  have 4: "loop_inv (tasks self) ?order pre res (calls fxl)" using i by simp
  have 7: "written fxl = written fx" using wr by (simp add: run_prologue_def)
  have 8: "filter is_summary (logged fxl) = filter is_summary (logged fx)"
    using sm by (simp add: run_prologue_def)
  show ?thesis
    by (rule exI[of _ res], rule exI[of _ fxl], rule exI[of _ wl], rule exI[of _ pre],
        rule exI[of _ post]) (intro conjI 1 2 sp 4 c h 7 8 dr)
qed

lemma run_epilogue_fields:
  "calls (export_results cfg s (print_summary s dur fxl)) = calls fxl"
  "written (export_results cfg s (print_summary s dur fxl))
     = written fxl @ [(export_path cfg s, export_document s)]"
  "logged (export_results cfg s (print_summary s dur fxl))
     = logged fxl @ summary_block (results s) dur @ [Log_exported (export_path cfg s)]"
  by (simp_all add: export_results_def Let_def print_summary_fields export_path_def
      export_document_def summary_block_def)

lemma summary_block_one_summary: "filter is_summary (summary_block res dur) = [Log_summary dur]"
  by (simp add: summary_block_def task_lines_no_summary)

lemma loop_inv_considered:
  assumes "loop_inv tsks order pre res cs"
  shows "status_of res n \<noteq> None \<longleftrightarrow> n \<in> set pre"
    and "n \<in> set cs \<Longrightarrow> n \<in> set pre"
proof -
  from assms have d: "fst ` set res = set pre" and c: "set cs \<subseteq> set pre"
    by (simp_all add: loop_inv_def)
  show "status_of res n \<noteq> None \<longleftrightarrow> n \<in> set pre"
    unfolding status_of_Some_iff d ..
  show "n \<in> set cs \<Longrightarrow> n \<in> set pre" using c by auto
qed

lemma loop_inv_entry:
  assumes inv: "loop_inv tsks order pre res cs"
    and t: "map_of tsks n = Some t" and c: "status_of res n \<noteq> None"
  shows "(status_of res n = Some SKIPPED \<and> n \<notin> set cs \<and>
           (\<exists>d \<in> set (t_deps t). status_of res d \<in> {Some FAILED, Some SKIPPED} \<or>
                                   \<not> precedes d n order)) \<or>
         (status_of res n \<in> {Some SUCCESS, Some FAILED} \<and> n \<in> set cs \<and>
           deps_succeeded (t_deps t) res)"
proof -
  from c obtain r where r: "map_of res n = Some r" by (auto simp: status_of_def)
  with inv obtain t' where t': "map_of tsks n = Some t'"
    and e: "(r_status r = SKIPPED \<and> n \<notin> set cs \<and>
             (\<exists>d \<in> set (t_deps t'). status_of res d \<in> {Some FAILED, Some SKIPPED} \<or>
                                      \<not> precedes d n order)) \<or>
            (r_status r \<in> {SUCCESS, FAILED} \<and> n \<in> set cs \<and> deps_succeeded (t_deps t') res)"
    unfolding loop_inv_def by blast
  from t t' have tt: "t' = t" by simp
  have s: "status_of res n = Some (r_status r)" using r by (simp add: status_of_def)
  from e show ?thesis unfolding tt s by auto
qed

lemma loop_inv_skipped:
  assumes inv: "loop_inv tsks order pre res cs"
    and t: "map_of tsks n = Some t" and c: "status_of res n \<noteq> None"
    and d: "\<not> deps_succeeded (t_deps t) res"
  shows "status_of res n = Some SKIPPED \<and> n \<notin> set cs"
  using loop_inv_entry[OF inv t c] d by auto

lemma skip_propagates:
  assumes inv: "loop_inv tsks order pre res cs"
    and path: "(n, d) \<in> (dep_rel tsks)\<^sup>+" and bad: "status_of res d \<noteq> Some SUCCESS"
  shows "status_of res n \<noteq> Some SUCCESS \<and>
         (status_of res n \<noteq> None \<longrightarrow> status_of res n = Some SKIPPED \<and> n \<notin> set cs)"
  using path
proof (induction rule: converse_trancl_induct)
  case (base y)
  then obtain t where t: "map_of tsks y = Some t" and dd: "d \<in> set (t_deps t)"
    by (auto simp: dep_rel_def)
  from dd bad have nd: "\<not> deps_succeeded (t_deps t) res" by (auto simp: deps_succeeded_iff)
  show ?case using loop_inv_skipped[OF inv t _ nd] by (cases "status_of res y") auto
next
  case (step y z)
  then obtain t where t: "map_of tsks y = Some t" and dd: "z \<in> set (t_deps t)"
    by (auto simp: dep_rel_def)
  from dd step.IH have nd: "\<not> deps_succeeded (t_deps t) res" by (auto simp: deps_succeeded_iff)
  show ?case using loop_inv_skipped[OF inv t _ nd] by (cases "status_of res y") auto
qed

lemma never_called_without_result:
  assumes inv: "loop_inv tsks order pre res cs" and n: "status_of res n = None"
  shows "n \<notin> set cs"
  using loop_inv_considered[OF inv, of n] n by auto

lemma unaffected_runs:
  assumes inv: "loop_inv tsks (topological_sort tsks) pre res cs"
    and t: "map_of tsks n = Some t" and c: "status_of res n \<noteq> None"
    and good: "\<forall>e. (n, e) \<in> (dep_rel tsks)\<^sup>+ \<longrightarrow>
                 e \<in> set (map fst tsks) \<and> status_of res e \<notin> {Some FAILED, Some SKIPPED}"
  shows "status_of res n \<in> {Some SUCCESS, Some FAILED} \<and> n \<in> set cs"
proof -
  have "\<not> (status_of res n = Some SKIPPED \<and>
           (\<exists>d \<in> set (t_deps t). status_of res d \<in> {Some FAILED, Some SKIPPED} \<or>
                                   \<not> precedes d n (topological_sort tsks)))"
  proof
    assume a: "status_of res n = Some SKIPPED \<and>
           (\<exists>d \<in> set (t_deps t). status_of res d \<in> {Some FAILED, Some SKIPPED} \<or>
                                   \<not> precedes d n (topological_sort tsks))"
    then obtain d where d: "d \<in> set (t_deps t)"
      and dd: "status_of res d \<in> {Some FAILED, Some SKIPPED} \<or>
               \<not> precedes d n (topological_sort tsks)" by blast
    from t d have e: "(n, d) \<in> dep_rel tsks" by (auto simp: dep_rel_def)
    then have e': "(n, d) \<in> (dep_rel tsks)\<^sup>+" by auto
    with good have k: "d \<in> set (map fst tsks)"
      and ok: "status_of res d \<notin> {Some FAILED, Some SKIPPED}" by blast+
    from dd ok have "\<not> precedes d n (topological_sort tsks)" by blast
    with registered_dependency_precedes_or_cycle[OF t d k]
    have "(d, n) \<in> (dep_rel tsks)\<^sup>+" by blast
    with e have "(n, n) \<in> (dep_rel tsks)\<^sup>+" by (rule trancl_into_trancl2)
    with good have "status_of res n \<notin> {Some FAILED, Some SKIPPED}" by blast
    with a show False by simp
  qed
  with loop_inv_entry[OF inv t c] show ?thesis by blast
qed

lemma precedes_irrefl: "\<not> precedes x x order"
  by (auto simp: precedes_def dest: set_takeWhileD)

lemma precedes_antisym:
  assumes "precedes a b order" shows "\<not> precedes b a order"
proof
  assume "precedes b a order"
  from precedes_position[OF this] precedes_position[OF assms] show False by simp
qed

lemma precedes_append:
  assumes "distinct (pre @ post)" "a \<in> set pre" "b \<in> set post"
  shows "precedes a b (pre @ post)"
proof -
  from assms have "b \<notin> set pre" by auto
  then have "takeWhile (\<lambda>x. x \<noteq> b) (pre @ post) = pre @ takeWhile (\<lambda>x. x \<noteq> b) post"
    by (induction pre) auto
  with assms(2,3) show ?thesis by (simp add: precedes_def)
qed

lemma considered_iff:
  assumes inv: "loop_inv tsks order pre res cs" and sp: "order = pre @ post"
    and dist: "distinct order"
    and c: "\<forall>x. critical_failure tsks res x \<longrightarrow> pre \<noteq> [] \<and> x = last pre"
    and h: "post = [] \<or> (pre \<noteq> [] \<and> critical_failure tsks res (last pre))"
  shows "status_of res n \<noteq> None \<longleftrightarrow>
           n \<in> set order \<and> (\<forall>x. critical_failure tsks res x \<longrightarrow> \<not> precedes x n order)"
proof
  assume "status_of res n \<noteq> None"
  then have np: "n \<in> set pre" unfolding loop_inv_considered(1)[OF inv] .
  have "\<not> precedes x n order" if cf: "critical_failure tsks res x" for x
  proof (cases "n = x")
    case True
    then show ?thesis by (simp add: precedes_irrefl)
  next
    case False
    from c cf have pn: "pre \<noteq> []" and x: "x = last pre" by auto
    then obtain p where p: "pre = p @ [x]" by (metis append_butlast_last_id)
    with np False have "n \<in> set p" by auto
    moreover have "order = p @ x # post" using sp p by simp
    ultimately have "precedes n x order" using precedes_done[of order p x post n] dist by simp
    then show ?thesis by (rule precedes_antisym)
  qed
  with np sp show "n \<in> set order \<and> (\<forall>x. critical_failure tsks res x \<longrightarrow> \<not> precedes x n order)"
    by auto
next
  assume a: "n \<in> set order \<and> (\<forall>x. critical_failure tsks res x \<longrightarrow> \<not> precedes x n order)"
  have "n \<in> set pre"
  proof (rule ccontr)
    assume np: "n \<notin> set pre"
    with a sp have npost: "n \<in> set post" by auto
    then have "post \<noteq> []" by auto
    with h have pn: "pre \<noteq> []" and cf: "critical_failure tsks res (last pre)" by auto
    from pn have "last pre \<in> set pre" by simp
    from precedes_append[OF _ this npost] dist sp have "precedes (last pre) n order" by simp
    with a cf show False by blast
  qed
  then show "status_of res n \<noteq> None" unfolding loop_inv_considered(1)[OF inv] .
qed

lemma halted_after_critical_failure:
  assumes inv: "loop_inv tsks order pre res cs" and sp: "order = pre @ post"
    and dist: "distinct order"
    and c: "\<forall>x. critical_failure tsks res x \<longrightarrow> pre \<noteq> [] \<and> x = last pre"
    and o: "order = xs @ n # ys" and cf: "critical_failure tsks res n" and m: "m \<in> set ys"
  shows "status_of res m = None \<and> m \<notin> set cs"
proof -
  from c cf have "pre \<noteq> []" "n = last pre" by auto
  then obtain p where p: "pre = p @ [n]" by (metis append_butlast_last_id)
  from sp o have e: "xs @ n # ys = p @ n # post" unfolding p by simp
  from dist o have "distinct (xs @ n # ys)" by simp
  from distinct_split_unique[OF this e] have "ys = post" by simp
  with m dist sp have "m \<notin> set pre" by auto
  with loop_inv_considered[OF inv, of m] show ?thesis by auto
qed

lemma ghost_dep_rel: "dep_rel (tasks ghost_pipeline) \<subseteq> {(''X'', ''never_registered'')}"
proof -
  have "dep_edges (tasks ghost_pipeline) = [(''X'', ''never_registered'')]"
    by (simp add: ghost_tasks dep_edges_def Task_def)
  with dep_rel_edges[of "tasks ghost_pipeline"] show ?thesis by simp
qed

lemma ghost_reach_X:
  "(dep_rel (tasks ghost_pipeline))\<^sup>+ `` {''X''} = {''never_registered''}"
proof
  show "(dep_rel (tasks ghost_pipeline))\<^sup>+ `` {''X''} \<subseteq> {''never_registered''}"
  proof
    fix y assume "y \<in> (dep_rel (tasks ghost_pipeline))\<^sup>+ `` {''X''}"
    then have p: "(''X'', y) \<in> (dep_rel (tasks ghost_pipeline))\<^sup>+" by simp
    from p have "y = ''never_registered''"
    proof (rule converse_tranclE)
      assume "(''X'', y) \<in> dep_rel (tasks ghost_pipeline)"
      with ghost_dep_rel show ?thesis by auto
    next
      fix z assume a: "(''X'', z) \<in> dep_rel (tasks ghost_pipeline)"
        and b: "(z, y) \<in> (dep_rel (tasks ghost_pipeline))\<^sup>+"
      from a ghost_dep_rel have "z = ''never_registered''" by auto
      with b obtain v where "(''never_registered'', v) \<in> dep_rel (tasks ghost_pipeline)"
        by (auto dest: tranclD)
      with ghost_dep_rel show ?thesis by auto
    qed
    then show "y \<in> {''never_registered''}" by simp
  qed
  have "(''X'', ''never_registered'') \<in> dep_rel (tasks ghost_pipeline)"
    by (simp add: dep_rel_def ghost_tasks Task_def)
  then show "{''never_registered''} \<subseteq> (dep_rel (tasks ghost_pipeline))\<^sup>+ `` {''X''}"
    by auto
qed

text \<open>
  Claim C3, as stated, fails in its last part. In the pipeline where X names a dependency
  that is never registered, X is considered, its only transitive dependency has no result
  at all (it neither failed nor was skipped), and yet X does not execute: its result is
  SKIPPED and its operation is never called.
\<close>

theorem unregistered_dependency_blocks_task:
  "\<exists>s fx w. run CONFIG frozen_clock ghost_pipeline (no_effects, ()) = Inr (s, fx, w) \<and>
      (dep_rel (tasks ghost_pipeline))\<^sup>+ `` {''X''} = {''never_registered''} \<and>
      status_of (results s) ''never_registered'' = None \<and>
      status_of (results s) ''X'' = Some SKIPPED \<and> ''X'' \<notin> set (calls fx)"
proof (cases "run CONFIG frozen_clock ghost_pipeline (no_effects, ())")
  case (Inl e)
  with ghost_run show ?thesis by simp
next
  case (Inr v)
  obtain s fx w where v: "v = (s, fx, w)" by (cases v)
  from Inr v have rn: "run CONFIG frozen_clock ghost_pipeline (no_effects, ()) = Inr (s, fx, w)"
    by simp
  from ghost_run rn
  have st: "map (\<lambda>(n, r). (n, r_status r)) (results s) = [(''X'', SKIPPED), (''Y'', SUCCESS)]"
    and c: "calls fx = [''Y'']"
    by simp_all
  have 1: "status_of (results s) ''never_registered'' = None"
    and 2: "status_of (results s) ''X'' = Some SKIPPED"
    unfolding status_of_alt st by simp_all
  have 3: "''X'' \<notin> set (calls fx)" unfolding c by simp
  show ?thesis
    by (rule exI[of _ s], rule exI[of _ fx], rule exI[of _ w]) (intro conjI rn ghost_reach_X 1 2 3)
qed

text \<open>
  Claim C3, amended. In a run that starts from an empty record, the tasks that the engine
  considers (those that get a result) are the tasks of the resolved order that no failed
  critical task precedes. For every considered task: if one of its declared dependencies
  has no recorded result or one whose status is not SUCCESS, the task's operation is never
  called and its result is SKIPPED; the same holds when a dependency further down a chain
  of dependencies failed or was skipped; and when all its transitive dependencies are
  registered tasks and none of them failed or was skipped, its operation is called and its
  result is SUCCESS or FAILED.
\<close>

theorem failed_dependency_skips_dependents:
  assumes nm: "names_match (tasks self)" and fresh: "results self = []" and nc: "calls fx = []"
  shows "\<exists>self' fx' w'. run cfg now self (fx, w) = Inr (self', fx', w') \<and>
    (\<forall>n. status_of (results self') n \<noteq> None \<longleftrightarrow>
          n \<in> set (topological_sort (tasks self)) \<and>
          (\<forall>c. critical_failure (tasks self) (results self') c \<longrightarrow>
               \<not> precedes c n (topological_sort (tasks self)))) \<and>
    (\<forall>n t. map_of (tasks self) n = Some t \<and> status_of (results self') n \<noteq> None \<longrightarrow>
       ((\<exists>d \<in> set (t_deps t). status_of (results self') d \<noteq> Some SUCCESS) \<longrightarrow>
          status_of (results self') n = Some SKIPPED \<and> n \<notin> set (calls fx')) \<and>
       ((\<exists>d. (n, d) \<in> (dep_rel (tasks self))\<^sup>+ \<and>
              status_of (results self') d \<in> {Some FAILED, Some SKIPPED}) \<longrightarrow>
          status_of (results self') n = Some SKIPPED \<and> n \<notin> set (calls fx')) \<and>
       ((\<forall>d. (n, d) \<in> (dep_rel (tasks self))\<^sup>+ \<longrightarrow>
              d \<in> set (map fst (tasks self)) \<and>
              status_of (results self') d \<notin> {Some FAILED, Some SKIPPED}) \<longrightarrow>
          status_of (results self') n \<in> {Some SUCCESS, Some FAILED} \<and> n \<in> set (calls fx')))"
proof -
  let ?tsks = "tasks self"
  let ?order = "topological_sort ?tsks"
  from run_outcome[OF nm fresh nc, of cfg now w]
  obtain res fxl wl pre post where
    r: "run cfg now self (fx, w) =
       Inr (self\<lparr>results := res\<rparr>,
            export_results cfg (self\<lparr>results := res\<rparr>)
              (print_summary (self\<lparr>results := res\<rparr>)
                 (of_int (fst (now wl) - fst (now w)) / 1000000) fxl),
            snd (now wl))"
    and sp: "?order = pre @ post"
    and inv: "loop_inv ?tsks ?order pre res (calls fxl)"
    and c: "\<forall>x. critical_failure ?tsks res x \<longrightarrow> pre \<noteq> [] \<and> x = last pre"
    and h: "post = [] \<or> (pre \<noteq> [] \<and> critical_failure ?tsks res (last pre))"
    by (elim exE conjE) (rule that)
  let ?self' = "self\<lparr>results := res\<rparr>"
  let ?fx' = "export_results cfg ?self'
                (print_summary ?self' (of_int (fst (now wl) - fst (now w)) / 1000000) fxl)"
  have rs: "results ?self' = res" by simp
  have cl: "calls ?fx' = calls fxl" by (rule run_epilogue_fields(1))
  have dist: "distinct ?order" using topological_sort_keys[of ?tsks] by simp
  have 1: "run cfg now self (fx, w) = Inr (?self', ?fx', snd (now wl))" by (rule r)
  have 2: "\<forall>n. status_of (results ?self') n \<noteq> None \<longleftrightarrow>
          n \<in> set ?order \<and>
          (\<forall>c. critical_failure ?tsks (results ?self') c \<longrightarrow> \<not> precedes c n ?order)"
    unfolding rs using considered_iff[OF inv sp dist c h] by blast
  have a: "status_of res n = Some SKIPPED \<and> n \<notin> set (calls fxl)"
    if "map_of ?tsks n = Some t" "status_of res n \<noteq> None"
       "\<exists>d \<in> set (t_deps t). status_of res d \<noteq> Some SUCCESS" for n t
  proof -
    from that(3) have "\<not> deps_succeeded (t_deps t) res" by (auto simp: deps_succeeded_iff)
    from loop_inv_skipped[OF inv that(1,2) this] show ?thesis .
  qed
  have b: "status_of res n = Some SKIPPED \<and> n \<notin> set (calls fxl)"
    if "status_of res n \<noteq> None"
       "\<exists>d. (n, d) \<in> (dep_rel ?tsks)\<^sup>+ \<and> status_of res d \<in> {Some FAILED, Some SKIPPED}" for n
  proof -
    from that(2) obtain d where p: "(n, d) \<in> (dep_rel ?tsks)\<^sup>+"
      and s: "status_of res d \<noteq> Some SUCCESS" by auto
    from skip_propagates[OF inv p s] that(1) show ?thesis by simp
  qed
  have e: "status_of res n \<in> {Some SUCCESS, Some FAILED} \<and> n \<in> set (calls fxl)"
    if "map_of ?tsks n = Some t" "status_of res n \<noteq> None"
       "\<forall>d. (n, d) \<in> (dep_rel ?tsks)\<^sup>+ \<longrightarrow>
              d \<in> set (map fst ?tsks) \<and> status_of res d \<notin> {Some FAILED, Some SKIPPED}" for n t
    using unaffected_runs[OF inv that(1,2,3)] .
  have 3: "\<forall>n t. map_of ?tsks n = Some t \<and> status_of (results ?self') n \<noteq> None \<longrightarrow>
       ((\<exists>d \<in> set (t_deps t). status_of (results ?self') d \<noteq> Some SUCCESS) \<longrightarrow>
          status_of (results ?self') n = Some SKIPPED \<and> n \<notin> set (calls ?fx')) \<and>
       ((\<exists>d. (n, d) \<in> (dep_rel ?tsks)\<^sup>+ \<and>
              status_of (results ?self') d \<in> {Some FAILED, Some SKIPPED}) \<longrightarrow>
          status_of (results ?self') n = Some SKIPPED \<and> n \<notin> set (calls ?fx')) \<and>
       ((\<forall>d. (n, d) \<in> (dep_rel ?tsks)\<^sup>+ \<longrightarrow>
              d \<in> set (map fst ?tsks) \<and>
              status_of (results ?self') d \<notin> {Some FAILED, Some SKIPPED}) \<longrightarrow>
          status_of (results ?self') n \<in> {Some SUCCESS, Some FAILED} \<and> n \<in> set (calls ?fx'))"
    unfolding rs cl
  proof (intro allI impI conjI)
    fix n t
    assume h: "map_of ?tsks n = Some t \<and> status_of res n \<noteq> None"
    { assume "\<exists>d \<in> set (t_deps t). status_of res d \<noteq> Some SUCCESS"
      from a[OF h[THEN conjunct1] h[THEN conjunct2] this]
      show "status_of res n = Some SKIPPED" "n \<notin> set (calls fxl)" by simp_all }
    { assume "\<exists>d. (n, d) \<in> (dep_rel ?tsks)\<^sup>+ \<and> status_of res d \<in> {Some FAILED, Some SKIPPED}"
      from b[OF h[THEN conjunct2] this]
      show "status_of res n = Some SKIPPED" "n \<notin> set (calls fxl)" by simp_all }
    { assume "\<forall>d. (n, d) \<in> (dep_rel ?tsks)\<^sup>+ \<longrightarrow>
              d \<in> set (map fst ?tsks) \<and> status_of res d \<notin> {Some FAILED, Some SKIPPED}"
      from e[OF h[THEN conjunct1] h[THEN conjunct2] this]
      show "status_of res n \<in> {Some SUCCESS, Some FAILED}" "n \<in> set (calls fxl)" by simp_all }
  qed
  show ?thesis
    by (rule exI[of _ ?self'], rule exI[of _ ?fx'], rule exI[of _ "snd (now wl)"])
       (intro conjI 1 2 3)
qed

theorem failed_dependency_skips_dependents_witness:
  "names_match (tasks chain_pipeline) \<and> results chain_pipeline = [] \<and> calls no_effects = [] \<and>
   (\<exists>self' fx' w'. run CONFIG frozen_clock chain_pipeline (no_effects, ()) = Inr (self', fx', w') \<and>
      status_of (results self') ''B'' = Some FAILED \<and>
      status_of (results self') ''C'' = Some SKIPPED \<and> ''C'' \<notin> set (calls fx') \<and>
      status_of (results self') ''D'' = Some SKIPPED \<and> ''D'' \<notin> set (calls fx') \<and>
      status_of (results self') ''E'' = Some SUCCESS \<and> ''E'' \<in> set (calls fx'))"
proof -
  let ?tsks = "tasks chain_pipeline"
  have fresh: "results chain_pipeline = []"
    by (simp add: chain_pipeline_def add_def Orchestrator_def)
  have nc: "calls no_effects = []" by (simp add: no_effects_def)
  from failed_dependency_skips_dependents[OF chain_names fresh nc, of CONFIG frozen_clock "()"]
  obtain self' fx' w' where
    r: "run CONFIG frozen_clock chain_pipeline (no_effects, ()) = Inr (self', fx', w')"
    and p: "\<forall>n t. map_of ?tsks n = Some t \<and> status_of (results self') n \<noteq> None \<longrightarrow>
       ((\<exists>d \<in> set (t_deps t). status_of (results self') d \<noteq> Some SUCCESS) \<longrightarrow>
          status_of (results self') n = Some SKIPPED \<and> n \<notin> set (calls fx')) \<and>
       ((\<exists>d. (n, d) \<in> (dep_rel ?tsks)\<^sup>+ \<and>
              status_of (results self') d \<in> {Some FAILED, Some SKIPPED}) \<longrightarrow>
          status_of (results self') n = Some SKIPPED \<and> n \<notin> set (calls fx')) \<and>
       ((\<forall>d. (n, d) \<in> (dep_rel ?tsks)\<^sup>+ \<longrightarrow>
              d \<in> set (map fst ?tsks) \<and>
              status_of (results self') d \<notin> {Some FAILED, Some SKIPPED}) \<longrightarrow>
          status_of (results self') n \<in> {Some SUCCESS, Some FAILED} \<and> n \<in> set (calls fx'))"
    by (elim exE conjE) (rule that)
  from chain_run_statuses r
  have st: "map (\<lambda>(n, r). (n, r_status r)) (results self') =
      [(''A'', SUCCESS), (''B'', FAILED), (''C'', SKIPPED), (''D'', SKIPPED), (''E'', SUCCESS)]"
    by simp
  have sA: "status_of (results self') ''A'' = Some SUCCESS"
    and sB: "status_of (results self') ''B'' = Some FAILED"
    and cC: "status_of (results self') ''C'' \<noteq> None"
    and cD: "status_of (results self') ''D'' \<noteq> None"
    and sE: "status_of (results self') ''E'' = Some SUCCESS"
    unfolding status_of_alt st by simp_all
  have tC: "map_of ?tsks ''C'' = Some (Task ''C'' ok_op (Some [''B'']) True)"
    and tD: "map_of ?tsks ''D'' = Some (Task ''D'' ok_op (Some [''C'']) True)"
    and tE: "map_of ?tsks ''E'' = Some (Task ''E'' ok_op (Some [''A'']) True)"
    by (simp_all add: chain_tasks)
  have hC: "\<exists>d \<in> set (t_deps (Task ''C'' ok_op (Some [''B'']) True)).
          status_of (results self') d \<noteq> Some SUCCESS"
    using sB by (simp add: Task_def)
  from p[rule_format, of "''C''", OF conjI[OF tC cC]] hC
  have C: "status_of (results self') ''C'' = Some SKIPPED \<and> ''C'' \<notin> set (calls fx')"
    by blast
  have "(''D'', ''C'') \<in> dep_rel ?tsks" "(''C'', ''B'') \<in> dep_rel ?tsks"
    by (simp_all add: dep_rel_def chain_tasks Task_def)
  then have "(''D'', ''B'') \<in> (dep_rel ?tsks)\<^sup>+" by auto
  with sB have hD: "\<exists>d. (''D'', d) \<in> (dep_rel ?tsks)\<^sup>+ \<and>
              status_of (results self') d \<in> {Some FAILED, Some SKIPPED}" by blast
  from p[rule_format, of "''D''", OF conjI[OF tD cD]] hD
  have D: "status_of (results self') ''D'' = Some SKIPPED \<and> ''D'' \<notin> set (calls fx')"
    by blast
  have kA: "''A'' \<in> set (map fst ?tsks)" by (simp add: chain_tasks)
  have hE: "\<forall>d. (''E'', d) \<in> (dep_rel ?tsks)\<^sup>+ \<longrightarrow>
          d \<in> set (map fst ?tsks) \<and> status_of (results self') d \<notin> {Some FAILED, Some SKIPPED}"
    using chain_reach_E sA kA by auto
  have cE: "status_of (results self') ''E'' \<noteq> None" using sE by simp
  from p[rule_format, of "''E''", OF conjI[OF tE cE]] hE
  have E: "''E'' \<in> set (calls fx')" by blast
  have "\<exists>self' fx' w'. run CONFIG frozen_clock chain_pipeline (no_effects, ()) = Inr (self', fx', w') \<and>
      status_of (results self') ''B'' = Some FAILED \<and>
      status_of (results self') ''C'' = Some SKIPPED \<and> ''C'' \<notin> set (calls fx') \<and>
      status_of (results self') ''D'' = Some SKIPPED \<and> ''D'' \<notin> set (calls fx') \<and>
      status_of (results self') ''E'' = Some SUCCESS \<and> ''E'' \<in> set (calls fx')"
    by (rule exI[of _ self'], rule exI[of _ fx'], rule exI[of _ w'])
       (intro conjI r sB C[THEN conjunct1] C[THEN conjunct2] D[THEN conjunct1] D[THEN conjunct2] sE E)
  with chain_names fresh nc show ?thesis by simp
qed

text \<open>
  Claim C4. In a run that starts from an empty record, when a critical task ends as
  FAILED (its operation, retries included, raised), no task that stands after it in the
  resolved order has a result or has had its operation called. Halted or not, the run
  then logs its summary once, after everything the loop logged, and writes one file: the
  export document of the recorded results, at the path made from the log directory and
  the run id.
\<close>

theorem critical_failure_halts_run:
  assumes nm: "names_match (tasks self)" and fresh: "results self = []" and nc: "calls fx = []"
  shows "\<exists>self' fx' w' before dur. run cfg now self (fx, w) = Inr (self', fx', w') \<and>
    (\<forall>xs n ys. topological_sort (tasks self) = xs @ n # ys \<and>
               critical_failure (tasks self) (results self') n \<longrightarrow>
       (\<forall>m \<in> set ys. status_of (results self') m = None \<and> m \<notin> set (calls fx'))) \<and>
    logged fx' = before @ summary_block (results self') dur @
                   [Log_exported (LOG_DIR cfg @ ''/results_'' @ run_id self @ ''.json'')] \<and>
    filter is_summary before = filter is_summary (logged fx) \<and>
    filter is_summary (logged fx') = filter is_summary (logged fx) @ [Log_summary dur] \<and>
    written fx' = written fx @
      [(LOG_DIR cfg @ ''/results_'' @ run_id self @ ''.json'',
        JObj [(''pipeline'', JStr (o_name self)),
              (''run_id'', JStr (run_id self)),
              (''results'', JObj (map (\<lambda>(name, r).
                 (name, JObj [(''status'', JStr (status_name (r_status r))),
                              (''duration'', JNum (duration r)),
                              (''records'', JInt (r_records r)),
                              (''error'', (case r_error r of None \<Rightarrow> JNull | Some e \<Rightarrow> JStr e))]))
                 (results self')))])]"
proof -
  let ?tsks = "tasks self"
  let ?order = "topological_sort ?tsks"
  from run_outcome[OF nm fresh nc, of cfg now w]
  obtain res fxl wl pre post where
    r: "run cfg now self (fx, w) =
       Inr (self\<lparr>results := res\<rparr>,
            export_results cfg (self\<lparr>results := res\<rparr>)
              (print_summary (self\<lparr>results := res\<rparr>)
                 (of_int (fst (now wl) - fst (now w)) / 1000000) fxl),
            snd (now wl))"
    and sp: "?order = pre @ post"
    and inv: "loop_inv ?tsks ?order pre res (calls fxl)"
    and c: "\<forall>x. critical_failure ?tsks res x \<longrightarrow> pre \<noteq> [] \<and> x = last pre"
    and wr: "written fxl = written fx"
    and sm: "filter is_summary (logged fxl) = filter is_summary (logged fx)"
    by (elim exE conjE) (rule that)
  let ?self' = "self\<lparr>results := res\<rparr>"
  let ?dur = "of_int (fst (now wl) - fst (now w)) / 1000000 :: rat"
  let ?fx' = "export_results cfg ?self' (print_summary ?self' ?dur fxl)"
  have rs: "results ?self' = res" by simp
  have cl: "calls ?fx' = calls fxl" by (rule run_epilogue_fields(1))
  have dist: "distinct ?order" using topological_sort_keys[of ?tsks] by simp
  have 1: "run cfg now self (fx, w) = Inr (?self', ?fx', snd (now wl))" by (rule r)
  have 2: "\<forall>xs n ys. ?order = xs @ n # ys \<and> critical_failure ?tsks (results ?self') n \<longrightarrow>
       (\<forall>m \<in> set ys. status_of (results ?self') m = None \<and> m \<notin> set (calls ?fx'))"
    unfolding rs cl
  proof (intro allI impI ballI)
    fix xs n ys m
    assume a: "?order = xs @ n # ys \<and> critical_failure ?tsks res n" and m: "m \<in> set ys"
    from halted_after_critical_failure[OF inv sp dist c a[THEN conjunct1] a[THEN conjunct2] m]
    show "status_of res m = None \<and> m \<notin> set (calls fxl)" .
  qed
  have 3: "logged ?fx' = logged fxl @ summary_block (results ?self') ?dur @
                   [Log_exported (LOG_DIR cfg @ ''/results_'' @ run_id self @ ''.json'')]"
    by (simp add: run_epilogue_fields(3) export_path_def)
  have 4: "filter is_summary (logged fxl) = filter is_summary (logged fx)" by (rule sm)
  have 5: "filter is_summary (logged ?fx') = filter is_summary (logged fx) @ [Log_summary ?dur]"
    unfolding 3 by (simp add: sm summary_block_one_summary)
  have 6: "written ?fx' = written fx @
      [(LOG_DIR cfg @ ''/results_'' @ run_id self @ ''.json'',
        JObj [(''pipeline'', JStr (o_name self)),
              (''run_id'', JStr (run_id self)),
              (''results'', JObj (map (\<lambda>(name, r).
                 (name, JObj [(''status'', JStr (status_name (r_status r))),
                              (''duration'', JNum (duration r)),
                              (''records'', JInt (r_records r)),
                              (''error'', (case r_error r of None \<Rightarrow> JNull | Some e \<Rightarrow> JStr e))]))
                 (results ?self')))])]"
    by (simp add: run_epilogue_fields(2) wr export_path_def export_document_def)
  show ?thesis
    by (rule exI[of _ ?self'], rule exI[of _ ?fx'], rule exI[of _ "snd (now wl)"],
        rule exI[of _ "logged fxl"], rule exI[of _ ?dur])
       (intro conjI 1 2 3 4 5 6)
qed

theorem critical_failure_halts_run_witness:
  "names_match (tasks scenario) \<and> results scenario = [] \<and> calls no_effects = [] \<and>
   topological_sort (tasks scenario) = [''A'', ''B'', ''C''] \<and>
   (\<exists>self' fx' w'. run CONFIG scenario_clock scenario (no_effects, (no_retry_effects, 0))
        = Inr (self', fx', w') \<and>
      critical_failure (tasks scenario) (results self') ''B'' \<and>
      status_of (results self') ''C'' = None \<and> ''C'' \<notin> set (calls fx') \<and>
      length (filter is_summary (logged fx')) = 1 \<and>
      map fst (written fx') = [''./orch_logs/results_run1.json''])"
proof -
  have nc: "calls no_effects = []" by (simp add: no_effects_def)
  from critical_failure_halts_run[OF scenario_names scenario_fresh nc,
      of CONFIG scenario_clock "(no_retry_effects, 0)"]
  obtain self' fx' w' before dur doc where
    r: "run CONFIG scenario_clock scenario (no_effects, (no_retry_effects, 0)) = Inr (self', fx', w')"
    and h: "\<forall>xs n ys. topological_sort (tasks scenario) = xs @ n # ys \<and>
               critical_failure (tasks scenario) (results self') n \<longrightarrow>
               (\<forall>m \<in> set ys. status_of (results self') m = None \<and> m \<notin> set (calls fx'))"
    and s: "filter is_summary (logged fx') = filter is_summary (logged no_effects) @ [Log_summary dur]"
    and e: "written fx' = written no_effects @
      [(LOG_DIR CONFIG @ ''/results_'' @ run_id scenario @ ''.json'', doc)]"
    by (elim exE conjE) (rule that)
  from scenario_run r
  have st: "map (\<lambda>(n, r). (n, r_status r, r_records r)) (results self')
              = [(''A'', SUCCESS, 2), (''B'', FAILED, 0)]"
    by simp
  have "map (\<lambda>(n, r). (n, r_status r)) (results self')
          = map (\<lambda>(n, s, k). (n, s)) (map (\<lambda>(n, r). (n, r_status r, r_records r)) (results self'))"
    by (simp add: case_prod_beta)
  with st have st': "map (\<lambda>(n, r). (n, r_status r)) (results self') = [(''A'', SUCCESS), (''B'', FAILED)]"
    by simp
  have cf: "critical_failure (tasks scenario) (results self') ''B''"
    unfolding critical_failure_def status_of_alt st' by (simp add: scenario_tasks Task_def)
  have o: "topological_sort (tasks scenario) = [''A''] @ ''B'' # [''C'']"
    by (simp add: scenario_sort)
  from h[rule_format, OF conjI[OF o cf], of "''C''"]
  have C: "status_of (results self') ''C'' = None" "''C'' \<notin> set (calls fx')" by simp_all
  from s have s1: "length (filter is_summary (logged fx')) = 1" by (simp add: no_effects_def)
  from e have e1: "map fst (written fx') = [''./orch_logs/results_run1.json'']"
    by (simp add: no_effects_def CONFIG_fields scenario_def add_def Orchestrator_def)
  have "\<exists>self' fx' w'. run CONFIG scenario_clock scenario (no_effects, (no_retry_effects, 0))
        = Inr (self', fx', w') \<and>
      critical_failure (tasks scenario) (results self') ''B'' \<and>
      status_of (results self') ''C'' = None \<and> ''C'' \<notin> set (calls fx') \<and>
      length (filter is_summary (logged fx')) = 1 \<and>
      map fst (written fx') = [''./orch_logs/results_run1.json'']"
    by (rule exI[of _ self'], rule exI[of _ fx'], rule exI[of _ w']) (intro conjI r cf C s1 e1)
  with scenario_names scenario_fresh nc scenario_sort show ?thesis by simp
qed

text \<open>
  Claim C6, amended. Every run that starts from an empty record ends its log, after
  all that the loop has logged, with the summary and the export notice: a rule, the
  total duration (the clock read in the world the loop ended in, minus the clock read
  before the loop, in seconds), the number of SUCCESS results and the number of FAILED
  results, a dash line, one line for each recorded result in the order of recording, with
  its status, name, duration and record count, and a rule. The recorded results are those
  of the considered tasks, the tasks of the resolved order that no failed critical task
  precedes; each has exactly one line, and its status is SUCCESS, FAILED or SKIPPED.
  There is no count of SKIPPED tasks.
\<close>

theorem summary_reports_counts_and_task_lines:
  assumes nm: "names_match (tasks self)" and fresh: "results self = []" and nc: "calls fx = []"
  shows "\<exists>self' fx' w' fxl wl.
    run_loop cfg now (tasks self) (topological_sort (tasks self))
       (results self, run_prologue self fx, snd (now w)) = Inr (results self', fxl, wl) \<and>
    run cfg now self (fx, w) = Inr (self', fx', w') \<and> w' = snd (now wl) \<and>
    logged fx' = logged fxl @
      [Log_rule, Log_summary (of_int (fst (now wl) - fst (now w)) / 1000000),
       Log_counts (count_status SUCCESS (results self')) (count_status FAILED (results self')),
       Log_dash] @ task_lines (results self') @
      [Log_rule, Log_exported (export_path cfg self)] \<and>
    distinct (map fst (results self')) \<and>
    (\<forall>(n, r) \<in> set (results self'). r_status r \<in> {SUCCESS, FAILED, SKIPPED}) \<and>
    (\<forall>n. n \<in> set (map fst (results self')) \<longleftrightarrow>
          n \<in> set (topological_sort (tasks self)) \<and>
          (\<forall>c. critical_failure (tasks self) (results self') c \<longrightarrow>
               \<not> precedes c n (topological_sort (tasks self))))"
proof -
  let ?tsks = "tasks self"
  let ?order = "topological_sort ?tsks"
  from run_outcome[OF nm fresh nc, of cfg now w]
  obtain res fxl wl pre post where
    l: "run_loop cfg now ?tsks ?order (results self, run_prologue self fx, snd (now w))
          = Inr (res, fxl, wl)"
    and r: "run cfg now self (fx, w) =
       Inr (self\<lparr>results := res\<rparr>,
            export_results cfg (self\<lparr>results := res\<rparr>)
              (print_summary (self\<lparr>results := res\<rparr>)
                 (of_int (fst (now wl) - fst (now w)) / 1000000) fxl),
            snd (now wl))"
    and sp: "?order = pre @ post"
    and inv: "loop_inv ?tsks ?order pre res (calls fxl)"
    and c: "\<forall>x. critical_failure ?tsks res x \<longrightarrow> pre \<noteq> [] \<and> x = last pre"
    and h: "post = [] \<or> (pre \<noteq> [] \<and> critical_failure ?tsks res (last pre))"
    and dr: "distinct (map fst res)"
    by (elim exE conjE) (rule that)
  let ?self' = "self\<lparr>results := res\<rparr>"
  let ?dur = "of_int (fst (now wl) - fst (now w)) / 1000000 :: rat"
  let ?fx' = "export_results cfg ?self' (print_summary ?self' ?dur fxl)"
  have rs: "results ?self' = res" by simp
  have dist: "distinct ?order" using topological_sort_keys[of ?tsks] by simp
  have 0: "run_loop cfg now ?tsks ?order (results self, run_prologue self fx, snd (now w))
          = Inr (results ?self', fxl, wl)" using l by simp
  have 1: "run cfg now self (fx, w) = Inr (?self', ?fx', snd (now wl))" by (rule r)
  have 2: "logged ?fx' = logged fxl @
      [Log_rule, Log_summary ?dur,
       Log_counts (count_status SUCCESS (results ?self')) (count_status FAILED (results ?self')),
       Log_dash] @ task_lines (results ?self') @
      [Log_rule, Log_exported (export_path cfg self)]"
    by (simp add: run_epilogue_fields(3) summary_block_def export_path_def)
  have 3: "distinct (map fst (results ?self'))" using dr by simp
  have t: "r_status r \<in> {SUCCESS, FAILED, SKIPPED}" if "(n, r) \<in> set res" for n r
  proof -
    from that have "map_of res n = Some r" using dr by simp
    then have "status_of res n = Some (r_status r)" by (simp add: status_of_def)
    from loop_inv_status[OF inv this] show ?thesis .
  qed
  have 4: "\<forall>(n, r) \<in> set (results ?self'). r_status r \<in> {SUCCESS, FAILED, SKIPPED}"
    using t by auto
  have 5: "\<forall>n. n \<in> set (map fst (results ?self')) \<longleftrightarrow>
          n \<in> set ?order \<and>
          (\<forall>c. critical_failure ?tsks (results ?self') c \<longrightarrow> \<not> precedes c n ?order)"
    unfolding rs
  proof
    fix n
    have k: "n \<in> set (map fst res) \<longleftrightarrow> status_of res n \<noteq> None"
      unfolding status_of_Some_iff by simp
    show "n \<in> set (map fst res) \<longleftrightarrow>
          n \<in> set ?order \<and> (\<forall>c. critical_failure ?tsks res c \<longrightarrow> \<not> precedes c n ?order)"
      unfolding k by (rule considered_iff[OF inv sp dist c h])
  qed
  have 6: "snd (now wl) = snd (now wl)" by simp
  show ?thesis
    by (rule exI[of _ ?self'], rule exI[of _ ?fx'], rule exI[of _ "snd (now wl)"],
        rule exI[of _ fxl], rule exI[of _ wl])
       (intro conjI 0 1 6 2 3 4 5)
qed

theorem summary_reports_counts_and_task_lines_witness:
  "names_match (tasks scenario) \<and> results scenario = [] \<and> calls no_effects = [] \<and>
   (\<exists>self' fx' w'. run CONFIG scenario_clock scenario (no_effects, (no_retry_effects, 0))
        = Inr (self', fx', w') \<and>
      Log_counts 1 1 \<in> set (logged fx') \<and> Log_summary 0 \<in> set (logged fx') \<and>
      count_status SUCCESS (results self') = 1 \<and> count_status FAILED (results self') = 1 \<and>
      Log_exported ''./orch_logs/results_run1.json'' \<in> set (logged fx'))"
proof -
  have nc: "calls no_effects = []" by (simp add: no_effects_def)
  from summary_reports_counts_and_task_lines[OF scenario_names scenario_fresh nc,
      of CONFIG scenario_clock "(no_retry_effects, 0)"]
  obtain self' fx' w' fxl wl where big:
    "run_loop CONFIG scenario_clock (tasks scenario) (topological_sort (tasks scenario))
       (results scenario, run_prologue scenario no_effects, snd (scenario_clock (no_retry_effects, 0)))
       = Inr (results self', fxl, wl) \<and>
    run CONFIG scenario_clock scenario (no_effects, (no_retry_effects, 0)) = Inr (self', fx', w') \<and>
    w' = snd (scenario_clock wl) \<and>
    logged fx' = logged fxl @
      [Log_rule, Log_summary (of_int (fst (scenario_clock wl) - fst (scenario_clock (no_retry_effects, 0))) / 1000000),
       Log_counts (count_status SUCCESS (results self')) (count_status FAILED (results self')),
       Log_dash] @ task_lines (results self') @
      [Log_rule, Log_exported (export_path CONFIG scenario)] \<and>
    distinct (map fst (results self')) \<and>
    (\<forall>(n, r) \<in> set (results self'). r_status r \<in> {SUCCESS, FAILED, SKIPPED}) \<and>
    (\<forall>n. n \<in> set (map fst (results self')) \<longleftrightarrow>
          n \<in> set (topological_sort (tasks scenario)) \<and>
          (\<forall>c. critical_failure (tasks scenario) (results self') c \<longrightarrow>
               \<not> precedes c n (topological_sort (tasks scenario))))"
    by (elim exE) (rule that)
  from big have r: "run CONFIG scenario_clock scenario (no_effects, (no_retry_effects, 0)) = Inr (self', fx', w')"
    by (rule conjunct2[THEN conjunct1])
  from big have l: "logged fx' = logged fxl @
      [Log_rule, Log_summary (of_int (fst (scenario_clock wl) - fst (scenario_clock (no_retry_effects, 0))) / 1000000),
       Log_counts (count_status SUCCESS (results self')) (count_status FAILED (results self')),
       Log_dash] @ task_lines (results self') @
      [Log_rule, Log_exported (export_path CONFIG scenario)]"
    by (rule conjunct2[THEN conjunct2, THEN conjunct2, THEN conjunct1])
  from scenario_run r
  have st: "map (\<lambda>(n, r). (n, r_status r, r_records r)) (results self')
              = [(''A'', SUCCESS, 2), (''B'', FAILED, 0)]"
    by simp
  have "map (\<lambda>(n, r). (n, r_status r)) (results self')
          = map (\<lambda>(n, s, k). (n, s)) (map (\<lambda>(n, r). (n, r_status r, r_records r)) (results self'))"
    by (simp add: case_prod_beta)
  with st have st': "map (\<lambda>(n, r). (n, r_status r)) (results self') = [(''A'', SUCCESS), (''B'', FAILED)]"
    by simp
  have cs: "count_status SUCCESS (results self') = 1" and cf: "count_status FAILED (results self') = 1"
    unfolding count_status_alt st' by simp_all
  have ep: "export_path CONFIG scenario = ''./orch_logs/results_run1.json''"
    by (simp add: export_path_def CONFIG_fields scenario_def add_def Orchestrator_def)
  have du: "of_int (fst (scenario_clock wl) - fst (scenario_clock (no_retry_effects, 0))) / 1000000
              = (0::rat)" by (simp add: scenario_clock_def)
  from l have 1: "Log_counts 1 1 \<in> set (logged fx')" unfolding cs cf by simp
  from l have 2: "Log_summary 0 \<in> set (logged fx')" unfolding du by simp
  from l have 3: "Log_exported ''./orch_logs/results_run1.json'' \<in> set (logged fx')"
    unfolding ep by simp
  have "\<exists>self' fx' w'. run CONFIG scenario_clock scenario (no_effects, (no_retry_effects, 0))
        = Inr (self', fx', w') \<and>
      Log_counts 1 1 \<in> set (logged fx') \<and> Log_summary 0 \<in> set (logged fx') \<and>
      count_status SUCCESS (results self') = 1 \<and> count_status FAILED (results self') = 1 \<and>
      Log_exported ''./orch_logs/results_run1.json'' \<in> set (logged fx')"
    by (rule exI[of _ self'], rule exI[of _ fx'], rule exI[of _ w']) (intro conjI r 1 2 cs cf 3)
  with scenario_names scenario_fresh nc show ?thesis by simp
qed

lemma ghost_chain_tasks:
  "tasks ghost_chain =
     [(''X'', Task ''X'' ok_op (Some [''never_registered'']) True),
      (''Y'', Task ''Y'' ok_op None True),
      (''Z'', Task ''Z'' ok_op (Some [''X'']) True)]"
  by (simp add: ghost_chain_def add_def Orchestrator_def)

lemma ghost_chain_sort: "topological_sort (tasks ghost_chain) = [''X'', ''Y'', ''Z'']"
  by (simp add: ghost_chain_tasks topological_sort_def Task_def)

lemma ghost_chain_run:
  "(case run CONFIG frozen_clock ghost_chain (no_effects, ()) of
      Inr (s, fx, w) \<Rightarrow> (map (\<lambda>(n, r). (n, r_status r)) (results s), calls fx)
    | Inl e \<Rightarrow> ([], [])) =
   ([(''X'', SKIPPED), (''Y'', SUCCESS), (''Z'', SKIPPED)], [''Y''])"
  unfolding run_def ghost_chain_sort
  by (simp add: ghost_chain_tasks Task_def can_run_def execute_task_def Let_def ok_op_def
      frozen_clock_def no_effects_def TaskResult_def CONFIG_fields
      print_summary_fields export_results_def ghost_chain_def add_def Orchestrator_def)

lemma ghost_chain_names: "names_match (tasks ghost_chain)"
  by (simp add: ghost_chain_tasks names_match_def Task_def)

lemma ghost_chain_dep_rel:
  "dep_rel (tasks ghost_chain) \<subseteq> {(''X'', ''never_registered''), (''Z'', ''X'')}"
proof -
  have "dep_edges (tasks ghost_chain) = [(''X'', ''never_registered''), (''Z'', ''X'')]"
    by (simp add: ghost_chain_tasks dep_edges_def Task_def)
  with dep_rel_edges[of "tasks ghost_chain"] show ?thesis by simp
qed

text \<open>
  Claim C8, amended. A task whose dependency list names a task that is never registered
  is registered all the same, and the pipeline runs to its summary and its export file.
  The unregistered name is left out of the resolved order and the task that names it is
  in the order. The operation of that task, and of every task that depends on it
  directly or through a chain, is never called, and each of these tasks, when the engine
  considers it, is recorded as SKIPPED. Every considered task whose transitive
  dependencies are all registered and of which none failed or was skipped is executed.
  The engine considers the tasks of the resolved order that no failed critical task
  precedes.
\<close>

theorem unknown_dependency_skips_task:
  assumes nm: "names_match (tasks self)" and fresh: "results self = []" and nc: "calls fx = []"
    and t: "map_of (tasks self) n = Some t" and d: "d \<in> set (t_deps t)"
    and unknown: "d \<notin> set (map fst (tasks self))"
  shows "n \<in> set (topological_sort (tasks self)) \<and> d \<notin> set (topological_sort (tasks self)) \<and>
    (\<exists>self' fx' w' before dur. run cfg now self (fx, w) = Inr (self', fx', w') \<and>
       status_of (results self') n \<in> {None, Some SKIPPED} \<and> n \<notin> set (calls fx') \<and>
       (\<forall>m. (m, n) \<in> (dep_rel (tasks self))\<^sup>+ \<longrightarrow>
            status_of (results self') m \<in> {None, Some SKIPPED} \<and> m \<notin> set (calls fx')) \<and>
       (\<forall>m tm. map_of (tasks self) m = Some tm \<and> status_of (results self') m \<noteq> None \<and>
            (\<forall>e. (m, e) \<in> (dep_rel (tasks self))\<^sup>+ \<longrightarrow>
                 e \<in> set (map fst (tasks self)) \<and>
                 status_of (results self') e \<notin> {Some FAILED, Some SKIPPED}) \<longrightarrow>
            status_of (results self') m \<in> {Some SUCCESS, Some FAILED} \<and> m \<in> set (calls fx')) \<and>
       (\<forall>m. status_of (results self') m \<noteq> None \<longleftrightarrow>
            m \<in> set (topological_sort (tasks self)) \<and>
            (\<forall>c. critical_failure (tasks self) (results self') c \<longrightarrow>
                 \<not> precedes c m (topological_sort (tasks self)))) \<and>
       logged fx' = before @ summary_block (results self') dur @
                      [Log_exported (export_path cfg self)] \<and>
       written fx' = written fx @ [(export_path cfg self, export_document self')])"
proof -
  let ?tsks = "tasks self"
  let ?order = "topological_sort ?tsks"
  have keys: "set ?order = set (map fst ?tsks)" using topological_sort_keys[of ?tsks] by simp
  have dist: "distinct ?order" using topological_sort_keys[of ?tsks] by simp
  have a: "n \<in> set ?order" using keys map_of_keys[OF t] by simp
  have b: "d \<notin> set ?order" using keys unknown by simp
  from run_outcome[OF nm fresh nc, of cfg now w]
  obtain res fxl wl pre post where
    r: "run cfg now self (fx, w) =
       Inr (self\<lparr>results := res\<rparr>,
            export_results cfg (self\<lparr>results := res\<rparr>)
              (print_summary (self\<lparr>results := res\<rparr>)
                 (of_int (fst (now wl) - fst (now w)) / 1000000) fxl),
            snd (now wl))"
    and sp: "?order = pre @ post"
    and inv: "loop_inv ?tsks ?order pre res (calls fxl)"
    and c: "\<forall>x. critical_failure ?tsks res x \<longrightarrow> pre \<noteq> [] \<and> x = last pre"
    and h: "post = [] \<or> (pre \<noteq> [] \<and> critical_failure ?tsks res (last pre))"
    and wr: "written fxl = written fx"
    by (elim exE conjE) (rule that)
  let ?self' = "self\<lparr>results := res\<rparr>"
  let ?dur = "of_int (fst (now wl) - fst (now w)) / 1000000 :: rat"
  let ?fx' = "export_results cfg ?self' (print_summary ?self' ?dur fxl)"
  have rs: "results ?self' = res" by simp
  have cl: "calls ?fx' = calls fxl" by (rule run_epilogue_fields(1))
  from b sp have "d \<notin> set pre" by auto
  then have dn: "status_of res d = None" using loop_inv_considered(1)[OF inv, of d] by simp
  have nd: "\<not> deps_succeeded (t_deps t) res"
  proof
    assume "deps_succeeded (t_deps t) res"
    with d have "status_of res d = Some SUCCESS" by (simp add: deps_succeeded_iff)
    with dn show False by simp
  qed
  have s: "status_of res n \<in> {None, Some SKIPPED} \<and> n \<notin> set (calls fxl)"
  proof (cases "status_of res n = None")
    case True
    with never_called_without_result[OF inv True] show ?thesis by simp
  next
    case False
    from loop_inv_skipped[OF inv t False nd] show ?thesis by simp
  qed
  then have nns: "status_of res n \<noteq> Some SUCCESS" by auto
  have dep: "status_of res m \<in> {None, Some SKIPPED} \<and> m \<notin> set (calls fxl)"
    if p: "(m, n) \<in> (dep_rel ?tsks)\<^sup>+" for m
  proof (cases "status_of res m = None")
    case True
    with never_called_without_result[OF inv True] show ?thesis by simp
  next
    case False
    with skip_propagates[OF inv p nns] show ?thesis by simp
  qed
  have 1: "run cfg now self (fx, w) = Inr (?self', ?fx', snd (now wl))" by (rule r)
  have 2: "status_of (results ?self') n \<in> {None, Some SKIPPED}" using s by simp
  have 3: "n \<notin> set (calls ?fx')" unfolding cl using s by simp
  have 4: "\<forall>m. (m, n) \<in> (dep_rel ?tsks)\<^sup>+ \<longrightarrow>
            status_of (results ?self') m \<in> {None, Some SKIPPED} \<and> m \<notin> set (calls ?fx')"
    unfolding rs cl using dep by blast
  have 5: "\<forall>m tm. map_of ?tsks m = Some tm \<and> status_of (results ?self') m \<noteq> None \<and>
            (\<forall>e. (m, e) \<in> (dep_rel ?tsks)\<^sup>+ \<longrightarrow>
                 e \<in> set (map fst ?tsks) \<and>
                 status_of (results ?self') e \<notin> {Some FAILED, Some SKIPPED}) \<longrightarrow>
            status_of (results ?self') m \<in> {Some SUCCESS, Some FAILED} \<and> m \<in> set (calls ?fx')"
    unfolding rs cl
  proof (intro allI impI)
    fix m tm
    assume g: "map_of ?tsks m = Some tm \<and> status_of res m \<noteq> None \<and>
            (\<forall>e. (m, e) \<in> (dep_rel ?tsks)\<^sup>+ \<longrightarrow>
                 e \<in> set (map fst ?tsks) \<and> status_of res e \<notin> {Some FAILED, Some SKIPPED})"
    from unaffected_runs[OF inv g[THEN conjunct1] g[THEN conjunct2, THEN conjunct1]
        g[THEN conjunct2, THEN conjunct2]]
    show "status_of res m \<in> {Some SUCCESS, Some FAILED} \<and> m \<in> set (calls fxl)" .
  qed
  have 6: "\<forall>m. status_of (results ?self') m \<noteq> None \<longleftrightarrow>
            m \<in> set ?order \<and>
            (\<forall>c. critical_failure ?tsks (results ?self') c \<longrightarrow> \<not> precedes c m ?order)"
    unfolding rs using considered_iff[OF inv sp dist c h] by blast
  have 7: "logged ?fx' = logged fxl @ summary_block (results ?self') ?dur @
                      [Log_exported (export_path cfg self)]"
    by (simp add: run_epilogue_fields(3) export_path_def)
  have 8: "written ?fx' = written fx @ [(export_path cfg self, export_document ?self')]"
    by (simp add: run_epilogue_fields(2) wr export_path_def)
  have "\<exists>self' fx' w' before dur. run cfg now self (fx, w) = Inr (self', fx', w') \<and>
       status_of (results self') n \<in> {None, Some SKIPPED} \<and> n \<notin> set (calls fx') \<and>
       (\<forall>m. (m, n) \<in> (dep_rel ?tsks)\<^sup>+ \<longrightarrow>
            status_of (results self') m \<in> {None, Some SKIPPED} \<and> m \<notin> set (calls fx')) \<and>
       (\<forall>m tm. map_of ?tsks m = Some tm \<and> status_of (results self') m \<noteq> None \<and>
            (\<forall>e. (m, e) \<in> (dep_rel ?tsks)\<^sup>+ \<longrightarrow>
                 e \<in> set (map fst ?tsks) \<and>
                 status_of (results self') e \<notin> {Some FAILED, Some SKIPPED}) \<longrightarrow>
            status_of (results self') m \<in> {Some SUCCESS, Some FAILED} \<and> m \<in> set (calls fx')) \<and>
       (\<forall>m. status_of (results self') m \<noteq> None \<longleftrightarrow>
            m \<in> set ?order \<and>
            (\<forall>c. critical_failure ?tsks (results self') c \<longrightarrow> \<not> precedes c m ?order)) \<and>
       logged fx' = before @ summary_block (results self') dur @
                      [Log_exported (export_path cfg self)] \<and>
       written fx' = written fx @ [(export_path cfg self, export_document self')]"
    by (rule exI[of _ ?self'], rule exI[of _ ?fx'], rule exI[of _ "snd (now wl)"],
        rule exI[of _ "logged fxl"], rule exI[of _ ?dur])
       (intro conjI 1 2 3 4 5 6 7 8)
  with a b show ?thesis by (intro conjI)
qed

theorem unknown_dependency_skips_task_witness:
  "names_match (tasks ghost_chain) \<and> results ghost_chain = [] \<and> calls no_effects = [] \<and>
   map_of (tasks ghost_chain) ''X'' = Some (Task ''X'' ok_op (Some [''never_registered'']) True) \<and>
   ''never_registered'' \<in> set (t_deps (Task ''X'' ok_op (Some [''never_registered'']) True)) \<and>
   ''never_registered'' \<notin> set (map fst (tasks ghost_chain)) \<and>
   ''X'' \<in> set (topological_sort (tasks ghost_chain)) \<and>
   ''never_registered'' \<notin> set (topological_sort (tasks ghost_chain)) \<and>
   (\<exists>self' fx' w'. run CONFIG frozen_clock ghost_chain (no_effects, ()) = Inr (self', fx', w') \<and>
      status_of (results self') ''X'' = Some SKIPPED \<and> ''X'' \<notin> set (calls fx') \<and>
      status_of (results self') ''Z'' = Some SKIPPED \<and> ''Z'' \<notin> set (calls fx') \<and>
      status_of (results self') ''Y'' = Some SUCCESS \<and> ''Y'' \<in> set (calls fx') \<and>
      written fx' = [(''./orch_logs/results_run1.json'', export_document self')])"
proof -
  let ?tsks = "tasks ghost_chain"
  let ?t = "Task ''X'' ok_op (Some [''never_registered'']) True"
  have fresh: "results ghost_chain = []"
    by (simp add: ghost_chain_def add_def Orchestrator_def)
  have nc: "calls no_effects = []" by (simp add: no_effects_def)
  have tX: "map_of ?tsks ''X'' = Some ?t" by (simp add: ghost_chain_tasks)
  have tY: "map_of ?tsks ''Y'' = Some (Task ''Y'' ok_op None True)"
    by (simp add: ghost_chain_tasks)
  have d: "''never_registered'' \<in> set (t_deps ?t)" by (simp add: Task_def)
  have u: "''never_registered'' \<notin> set (map fst ?tsks)" by (simp add: ghost_chain_tasks)
  note th = unknown_dependency_skips_task[OF ghost_chain_names fresh nc tX d u,
      of CONFIG frozen_clock "()"]
  have a: "''X'' \<in> set (topological_sort ?tsks)" by (rule th[THEN conjunct1])
  have b: "''never_registered'' \<notin> set (topological_sort ?tsks)"
    by (rule th[THEN conjunct2, THEN conjunct1])
  from th[THEN conjunct2, THEN conjunct2]
  obtain self' fx' w' before dur where
    big: "run CONFIG frozen_clock ghost_chain (no_effects, ()) = Inr (self', fx', w') \<and>
       status_of (results self') ''X'' \<in> {None, Some SKIPPED} \<and> ''X'' \<notin> set (calls fx') \<and>
       (\<forall>m. (m, ''X'') \<in> (dep_rel ?tsks)\<^sup>+ \<longrightarrow>
            status_of (results self') m \<in> {None, Some SKIPPED} \<and> m \<notin> set (calls fx')) \<and>
       (\<forall>m tm. map_of ?tsks m = Some tm \<and> status_of (results self') m \<noteq> None \<and>
            (\<forall>e. (m, e) \<in> (dep_rel ?tsks)\<^sup>+ \<longrightarrow>
                 e \<in> set (map fst ?tsks) \<and>
                 status_of (results self') e \<notin> {Some FAILED, Some SKIPPED}) \<longrightarrow>
            status_of (results self') m \<in> {Some SUCCESS, Some FAILED} \<and> m \<in> set (calls fx')) \<and>
       (\<forall>m. status_of (results self') m \<noteq> None \<longleftrightarrow>
            m \<in> set (topological_sort ?tsks) \<and>
            (\<forall>c. critical_failure ?tsks (results self') c \<longrightarrow>
                 \<not> precedes c m (topological_sort ?tsks))) \<and>
       logged fx' = before @ summary_block (results self') dur @
                      [Log_exported (export_path CONFIG ghost_chain)] \<and>
       written fx' = written no_effects @ [(export_path CONFIG ghost_chain, export_document self')]"
    by (elim exE) (rule that)
  note r = big[THEN conjunct1]
  note cX = big[THEN conjunct2, THEN conjunct2, THEN conjunct1]
  note up = big[THEN conjunct2, THEN conjunct2, THEN conjunct2, THEN conjunct1]
  note ok = big[THEN conjunct2, THEN conjunct2, THEN conjunct2, THEN conjunct2, THEN conjunct1]
  note wr = big[THEN conjunct2, THEN conjunct2, THEN conjunct2, THEN conjunct2,
      THEN conjunct2, THEN conjunct2, THEN conjunct2]
  from ghost_chain_run r
  have st: "map (\<lambda>(n, r). (n, r_status r)) (results self') =
      [(''X'', SKIPPED), (''Y'', SUCCESS), (''Z'', SKIPPED)]"
    by simp
  have sX: "status_of (results self') ''X'' = Some SKIPPED"
    and sY: "status_of (results self') ''Y'' = Some SUCCESS"
    and sZ: "status_of (results self') ''Z'' = Some SKIPPED"
    unfolding status_of_alt st by simp_all
  have "(''Z'', ''X'') \<in> dep_rel ?tsks"
    by (simp add: dep_rel_def ghost_chain_tasks Task_def)
  then have "(''Z'', ''X'') \<in> (dep_rel ?tsks)\<^sup>+" by auto
  with up have cZ: "''Z'' \<notin> set (calls fx')" by blast
  have noY: "(''Y'', e) \<notin> (dep_rel ?tsks)\<^sup>+" for e
  proof
    assume "(''Y'', e) \<in> (dep_rel ?tsks)\<^sup>+"
    then obtain z where "(''Y'', z) \<in> dep_rel ?tsks" by (meson tranclD)
    with ghost_chain_dep_rel show False by auto
  qed
  have hY: "\<forall>e. (''Y'', e) \<in> (dep_rel ?tsks)\<^sup>+ \<longrightarrow>
          e \<in> set (map fst ?tsks) \<and> status_of (results self') e \<notin> {Some FAILED, Some SKIPPED}"
    using noY by blast
  have nY: "status_of (results self') ''Y'' \<noteq> None" using sY by simp
  from ok[rule_format, of "''Y''", OF conjI[OF tY conjI[OF nY hY]]]
  have cY: "''Y'' \<in> set (calls fx')" by blast
  have path: "export_path CONFIG ghost_chain = ''./orch_logs/results_run1.json''"
    by (simp add: export_path_def CONFIG_fields ghost_chain_def add_def Orchestrator_def)
  have w: "written fx' = [(''./orch_logs/results_run1.json'', export_document self')]"
    using wr unfolding path by (simp add: no_effects_def)
  have "\<exists>self' fx' w'. run CONFIG frozen_clock ghost_chain (no_effects, ()) = Inr (self', fx', w') \<and>
      status_of (results self') ''X'' = Some SKIPPED \<and> ''X'' \<notin> set (calls fx') \<and>
      status_of (results self') ''Z'' = Some SKIPPED \<and> ''Z'' \<notin> set (calls fx') \<and>
      status_of (results self') ''Y'' = Some SUCCESS \<and> ''Y'' \<in> set (calls fx') \<and>
      written fx' = [(''./orch_logs/results_run1.json'', export_document self')]"
    by (rule exI[of _ self'], rule exI[of _ fx'], rule exI[of _ w'])
       (intro conjI r sX cX sZ cZ sY cY w)
  with ghost_chain_names fresh nc tX d u a b show ?thesis by (intro conjI)
qed


section \<open>The retry policy: delays and attempts\<close>


lemma world_after_Suc: "world_after func (Suc k) w = world_after func k (snd (func w))"
  unfolding world_after_def using funpow_swap1[of "\<lambda>w. snd (func w)" k w] by simp

lemma world_after_0: "world_after func 0 w = w"
  by (simp add: world_after_def)

lemma retry_loop_trace:
  "int a \<le> m \<Longrightarrow>
   \<exists>k. int (a + k) \<le> m \<and>
       slept (fst (snd (retry_loop cfg m func a (rx, w)))) =
         slept rx @ map (\<lambda>attempt. RETRY_DELAY cfg * RETRY_BACKOFF cfg ^ attempt) [a..<a + k] \<and>
       (\<forall>j<k. isl (fst (func (world_after func j w)))) \<and>
       fst (retry_loop cfg m func a (rx, w)) = fst (func (world_after func k w)) \<and>
       snd (snd (retry_loop cfg m func a (rx, w))) = world_after func (Suc k) w \<and>
       (isl (fst (retry_loop cfg m func a (rx, w))) \<longrightarrow> int (a + k) = m)"
proof (induction cfg m func a "(rx, w)" arbitrary: rx w rule: retry_loop.induct)
  case (1 cfg m func a rx w)
  obtain r w1 where f: "func w = (r, w1)" by (cases "func w")
  from "1.prems" have lt: "int a < m + 1" by simp
  show ?case
  proof (cases r)
    case (Inr v)
    with f lt show ?thesis
      by (intro exI[of _ 0]) (simp add: world_after_0 world_after_Suc "1.prems")
  next
    case (Inl e)
    show ?thesis
    proof (cases "int a \<ge> m")
      case True
      with f Inl lt "1.prems" show ?thesis
        by (intro exI[of _ 0]) (simp add: world_after_0 world_after_Suc)
    next
      case False
      let ?d = "RETRY_DELAY cfg * RETRY_BACKOFF cfg ^ a"
      let ?rx = "rx\<lparr>retry_logged := retry_logged rx @ [(a + 1, m, ?d, e)]\<rparr>"
      let ?rx2 = "?rx\<lparr>slept := slept ?rx @ [?d]\<rparr>"
      have step: "retry_loop cfg m func a (rx, w) = retry_loop cfg m func (Suc a) (?rx2, w1)"
        using f Inl lt False
        by (subst retry_loop.simps) (simp add: Let_def del: retry_loop.simps)
      from False have le: "int (Suc a) \<le> m" by simp
      from "1.hyps"[OF lt f[symmetric] Inl False refl refl refl le]
      obtain k where
        b: "int (Suc a + k) \<le> m"
        and s: "slept (fst (snd (retry_loop cfg m func (Suc a) (?rx2, w1)))) =
           slept ?rx2 @ map (\<lambda>attempt. RETRY_DELAY cfg * RETRY_BACKOFF cfg ^ attempt) [Suc a..<Suc a + k]"
        and fl: "\<forall>j<k. isl (fst (func (world_after func j w1)))"
        and rs: "fst (retry_loop cfg m func (Suc a) (?rx2, w1)) = fst (func (world_after func k w1))"
        and ws: "snd (snd (retry_loop cfg m func (Suc a) (?rx2, w1))) = world_after func (Suc k) w1"
        and lst: "isl (fst (retry_loop cfg m func (Suc a) (?rx2, w1))) \<longrightarrow> int (Suc a + k) = m"
        by (elim exE conjE) (rule that)
      have w1: "w1 = snd (func w)" using f by simp
      have up: "[a..<a + Suc k] = a # [Suc a..<Suc a + k]" by (simp add: upt_rec)
      have 1: "int (a + Suc k) \<le> m" using b by simp
      have 2: "slept (fst (snd (retry_loop cfg m func a (rx, w)))) =
         slept rx @ map (\<lambda>attempt. RETRY_DELAY cfg * RETRY_BACKOFF cfg ^ attempt) [a..<a + Suc k]"
        unfolding step s up by simp
      have 3: "\<forall>j<Suc k. isl (fst (func (world_after func j w)))"
      proof (intro allI impI)
        fix j assume j: "j < Suc k"
        show "isl (fst (func (world_after func j w)))"
        proof (cases j)
          case 0
          with f Inl show ?thesis by (simp add: world_after_0)
        next
          case (Suc i)
          with j fl show ?thesis by (simp add: world_after_Suc w1)
        qed
      qed
      have 4: "fst (retry_loop cfg m func a (rx, w)) = fst (func (world_after func (Suc k) w))"
        unfolding step rs by (simp add: world_after_Suc[of func k w] w1)
      have 5: "snd (snd (retry_loop cfg m func a (rx, w))) = world_after func (Suc (Suc k)) w"
        unfolding step ws by (simp add: world_after_Suc[of func "Suc k" w] w1)
      have 6: "isl (fst (retry_loop cfg m func a (rx, w))) \<longrightarrow> int (a + Suc k) = m"
        unfolding step using lst by simp
      show ?thesis by (rule exI[of _ "Suc k"]) (intro conjI 1 2 3 4 5 6)
    qed
  qed
qed

lemma retry_negative:
  "max_retries < 0 \<Longrightarrow> retry_with_backoff cfg max_retries func (rx, w) = (Inr NoneVal, rx, w)"
  by (simp add: retry_with_backoff_def)

lemma retry_default:
  "retry_with_backoff CONFIG (MAX_RETRIES CONFIG) always_fails (no_retry_effects, 0) =
     (Inl ''boom'',
      \<lparr>slept = [2, 4, 8],
       retry_logged = [(1, 3, 2, ''boom''), (2, 3, 4, ''boom''), (3, 3, 8, ''boom'')]\<rparr>, 4)"
  by (simp add: retry_with_backoff_def always_fails_def CONFIG_def Let_def no_retry_effects_def)

lemma always_fails_world: "world_after always_fails k w = w + k"
  by (induction k arbitrary: w) (simp_all add: world_after_0 world_after_Suc always_fails_def)

text \<open>
  Claim C5. The wrapper makes its attempts one after the other and sleeps after each
  failed attempt but the last one allowed: with a bound \<open>max_retries\<close> that is not negative
  there is a number \<open>k\<close> of sleeps, at most \<open>max_retries\<close>, such that the first \<open>k\<close> attempts
  failed, the wrapper's outcome is the outcome of attempt number \<open>k\<close> (counting from 0),
  that attempt is the last one made, and when it failed too \<open>k\<close> is the bound itself. The
  delays slept are, in order, \<open>RETRY_DELAY * RETRY_BACKOFF ^ attempt\<close> for the attempts
  \<open>0, \<dots>, k - 1\<close>: each delay is a function of the attempt index and of the configuration
  alone. With a negative bound the wrapper makes no attempt, sleeps never and returns
  \<^verbatim>\<open>None\<close>. With the configured values (delay 2, backoff 2.0, three retries) an
  operation that always fails is attempted four times and the delays slept are 2, 4 and
  8 seconds.
\<close>

theorem retry_delays_are_exponential:
  "(max_retries < 0 \<longrightarrow>
      retry_with_backoff cfg max_retries func (rx, w) = (Inr NoneVal, rx, w)) \<and>
   (0 \<le> max_retries \<longrightarrow>
      (\<exists>k. int k \<le> max_retries \<and>
         slept (fst (snd (retry_with_backoff cfg max_retries func (rx, w)))) =
           slept rx @ map (\<lambda>attempt. RETRY_DELAY cfg * RETRY_BACKOFF cfg ^ attempt) [0..<k] \<and>
         (\<forall>j<k. isl (fst (func (world_after func j w)))) \<and>
         fst (retry_with_backoff cfg max_retries func (rx, w)) = fst (func (world_after func k w)) \<and>
         snd (snd (retry_with_backoff cfg max_retries func (rx, w))) = world_after func (Suc k) w \<and>
         (isl (fst (retry_with_backoff cfg max_retries func (rx, w))) \<longrightarrow> int k = max_retries))) \<and>
   retry_with_backoff CONFIG (MAX_RETRIES CONFIG) always_fails (no_retry_effects, 0) =
     (Inl ''boom'',
      \<lparr>slept = [2, 4, 8],
       retry_logged = [(1, 3, 2, ''boom''), (2, 3, 4, ''boom''), (3, 3, 8, ''boom'')]\<rparr>, 4)"
proof (intro conjI impI)
  assume "max_retries < 0"
  then show "retry_with_backoff cfg max_retries func (rx, w) = (Inr NoneVal, rx, w)"
    by (rule retry_negative)
next
  assume "0 \<le> max_retries"
  then have "int 0 \<le> max_retries" by simp
  from retry_loop_trace[OF this, of cfg func rx w]
  show "\<exists>k. int k \<le> max_retries \<and>
         slept (fst (snd (retry_with_backoff cfg max_retries func (rx, w)))) =
           slept rx @ map (\<lambda>attempt. RETRY_DELAY cfg * RETRY_BACKOFF cfg ^ attempt) [0..<k] \<and>
         (\<forall>j<k. isl (fst (func (world_after func j w)))) \<and>
         fst (retry_with_backoff cfg max_retries func (rx, w)) = fst (func (world_after func k w)) \<and>
         snd (snd (retry_with_backoff cfg max_retries func (rx, w))) = world_after func (Suc k) w \<and>
         (isl (fst (retry_with_backoff cfg max_retries func (rx, w))) \<longrightarrow> int k = max_retries)"
    unfolding retry_with_backoff_def by simp
next
  show "retry_with_backoff CONFIG (MAX_RETRIES CONFIG) always_fails (no_retry_effects, 0) =
     (Inl ''boom'',
      \<lparr>slept = [2, 4, 8],
       retry_logged = [(1, 3, 2, ''boom''), (2, 3, 4, ''boom''), (3, 3, 8, ''boom'')]\<rparr>, 4)"
    by (rule retry_default)
qed

theorem retry_delays_are_exponential_witness:
  "(0::int) \<le> 3 \<and>
   fst (retry_with_backoff CONFIG 3 always_fails (no_retry_effects, 0)) = Inl ''boom'' \<and>
   slept (fst (snd (retry_with_backoff CONFIG 3 always_fails (no_retry_effects, 0)))) = [2, 4, 8] \<and>
   snd (snd (retry_with_backoff CONFIG 3 always_fails (no_retry_effects, 0))) = 4 \<and>
   (-1::int) < 0 \<and>
   retry_with_backoff CONFIG (-1) always_fails (no_retry_effects, 0) =
     (Inr NoneVal, no_retry_effects, 0)"
proof -
  let ?R = "retry_with_backoff CONFIG 3 always_fails (no_retry_effects, 0)"
  note th = retry_delays_are_exponential[of 3 CONFIG always_fails no_retry_effects 0]
  have p: "(0::int) \<le> 3" by simp
  from th[THEN conjunct2, THEN conjunct1, THEN mp, OF p]
  obtain k where
    big: "int k \<le> 3 \<and>
         slept (fst (snd ?R)) =
           slept no_retry_effects @
             map (\<lambda>attempt. RETRY_DELAY CONFIG * RETRY_BACKOFF CONFIG ^ attempt) [0..<k] \<and>
         (\<forall>j<k. isl (fst (always_fails (world_after always_fails j 0)))) \<and>
         fst ?R = fst (always_fails (world_after always_fails k 0)) \<and>
         snd (snd ?R) = world_after always_fails (Suc k) 0 \<and>
         (isl (fst ?R) \<longrightarrow> int k = 3)"
    by (elim exE) (rule that)
  note sl = big[THEN conjunct2, THEN conjunct1]
  note rs = big[THEN conjunct2, THEN conjunct2, THEN conjunct2, THEN conjunct1]
  note ws = big[THEN conjunct2, THEN conjunct2, THEN conjunct2, THEN conjunct2, THEN conjunct1]
  note lst = big[THEN conjunct2, THEN conjunct2, THEN conjunct2, THEN conjunct2, THEN conjunct2]
  have r: "fst ?R = Inl ''boom''" unfolding rs by (simp add: always_fails_def)
  with lst have k: "k = 3" by simp
  have up: "[0..<3] = [0, 1, 2]" by (simp add: upt_rec)
  have s: "slept (fst (snd ?R)) = [2, 4, 8]"
    unfolding sl k up by (simp add: CONFIG_fields no_retry_effects_def)
  have w: "snd (snd ?R) = 4" unfolding ws k always_fails_world by simp
  have q: "(-1::int) < 0" by simp
  from retry_delays_are_exponential[of "-1" CONFIG always_fails no_retry_effects 0,
      THEN conjunct1, THEN mp, OF q]
  have n: "retry_with_backoff CONFIG (-1) always_fails (no_retry_effects, 0) =
     (Inr NoneVal, no_retry_effects, 0)" .
  show ?thesis by (intro conjI p r s w q n)
qed

end
